theory Spec2Isabelle
  imports Main "HOL-Library.Multiset"
begin

section \<open>Python values, exceptions and list indexing\<close>

text \<open>
  The module \<^verbatim>\<open>shared/python/ds.py\<close> is embedded function by function.
  A Python value stored in a container is an \<open>'a option\<close>: \<open>None\<close> is Python's
  \<^verbatim>\<open>None\<close> (the filler of unused buffer slots and the sentinel the remove-type
  operations return), \<open>Some x\<close> is any other value.  A raised exception is the left
  summand of a result; a method that mutates its object returns the new object.
  \<open>NoSuchObject\<close> is not a Python exception: it is what the model answers when a
  reference is followed that names no node of the store, which the invariants below
  show never happens.
\<close>

datatype error = IndexError | TypeError | NoSuchObject

text \<open>\<^verbatim>\<open>xs[i]\<close> on a built-in list: a negative index counts from the end, an index
  out of range raises \<^verbatim>\<open>IndexError\<close>.\<close>

definition list_index :: "'v list \<Rightarrow> int \<Rightarrow> error + 'v" where
  "list_index xs i =
     (let n = int (length xs); j = (if i < 0 then i + n else i)
      in if 0 \<le> j \<and> j < n then Inr (xs ! nat j) else Inl IndexError)"

text \<open>\<^verbatim>\<open>xs[i] = v\<close> on a built-in list.\<close>

definition list_store :: "'v list \<Rightarrow> int \<Rightarrow> 'v \<Rightarrow> error + 'v list" where
  "list_store xs i v =
     (let n = int (length xs); j = (if i < 0 then i + n else i)
      in if 0 \<le> j \<and> j < n then Inr (xs[nat j := v]) else Inl IndexError)"

text \<open>\<^verbatim>\<open>[None] * n\<close>: the empty list when \<open>n \<le> 0\<close>.\<close>

definition none_list :: "int \<Rightarrow> 'a option list" where
  "none_list n = replicate (nat n) None"

section \<open>ArrayList\<close>

record 'a ArrayList =
  al_capacity :: int
  al_size :: int
  al_data :: "'a option list"

definition ArrayList_init :: "int \<Rightarrow> 'a ArrayList" where
  "ArrayList_init capacity =
     (let capacity = (if capacity < 1 then 1 else capacity)
      in \<lparr>al_capacity = capacity, al_size = 0, al_data = none_list capacity\<rparr>)"

text \<open>The default of the keyword argument: \<^verbatim>\<open>capacity=4\<close>.\<close>

definition default_capacity :: int where
  "default_capacity = 4"

definition ArrayList_new :: "'a ArrayList" where
  "ArrayList_new = ArrayList_init default_capacity"

text \<open>The copying loop of \<^verbatim>\<open>_grow\<close>, from the loop counter \<open>i\<close>.\<close>

function grow_loop :: "'a ArrayList \<Rightarrow> 'a option list \<Rightarrow> int \<Rightarrow> error + 'a option list" where
  "grow_loop a new_data i =
     (if i < al_size a then
        (case list_index (al_data a) i of
           Inl e \<Rightarrow> Inl e
         | Inr v \<Rightarrow>
             (case list_store new_data i v of
                Inl e \<Rightarrow> Inl e
              | Inr new_data' \<Rightarrow> grow_loop a new_data' (i + 1)))
      else Inr new_data)"
  by pat_completeness auto
termination
  by (relation "measure (\<lambda>(a, new_data, i). nat (al_size a - i))") auto

declare grow_loop.simps [simp del]

definition ArrayList_grow :: "'a ArrayList \<Rightarrow> error + 'a ArrayList" where
  "ArrayList_grow a =
     (let new_capacity = al_capacity a * 2;
          new_data = none_list new_capacity
      in case grow_loop a new_data 0 of
           Inl e \<Rightarrow> Inl e
         | Inr new_data' \<Rightarrow> Inr (a\<lparr>al_data := new_data', al_capacity := new_capacity\<rparr>))"

definition ArrayList_add :: "'a ArrayList \<Rightarrow> 'a option \<Rightarrow> error + 'a ArrayList" where
  "ArrayList_add a v =
     (case (if al_size a \<ge> al_capacity a then ArrayList_grow a else Inr a) of
        Inl e \<Rightarrow> Inl e
      | Inr a1 \<Rightarrow>
          (case list_store (al_data a1) (al_size a1) v of
             Inl e \<Rightarrow> Inl e
           | Inr d \<Rightarrow> Inr (a1\<lparr>al_data := d, al_size := al_size a1 + 1\<rparr>)))"

definition ArrayList_get :: "'a ArrayList \<Rightarrow> int \<Rightarrow> error + 'a option" where
  "ArrayList_get a index =
     (if index < 0 \<or> index \<ge> al_size a then Inl IndexError
      else list_index (al_data a) index)"

definition ArrayList_set :: "'a ArrayList \<Rightarrow> int \<Rightarrow> 'a option \<Rightarrow> error + 'a ArrayList" where
  "ArrayList_set a index v =
     (if index < 0 \<or> index \<ge> al_size a then Inl IndexError
      else (case list_store (al_data a) index v of
              Inl e \<Rightarrow> Inl e
            | Inr d \<Rightarrow> Inr (a\<lparr>al_data := d\<rparr>)))"

definition ArrayList_size :: "'a ArrayList \<Rightarrow> int" where
  "ArrayList_size a = al_size a"

definition ArrayList_remove_last :: "'a ArrayList \<Rightarrow> error + ('a option \<times> 'a ArrayList)" where
  "ArrayList_remove_last a =
     (if al_size a = 0 then Inr (None, a)
      else (case list_index (al_data a) (al_size a - 1) of
              Inl e \<Rightarrow> Inl e
            | Inr v \<Rightarrow>
                (case list_store (al_data a) (al_size a - 1) None of
                   Inl e \<Rightarrow> Inl e
                 | Inr d \<Rightarrow> Inr (v, a\<lparr>al_data := d, al_size := al_size a - 1\<rparr>))))"

text \<open>The copying loop of \<^verbatim>\<open>to_list\<close>.\<close>

function to_list_loop :: "'a ArrayList \<Rightarrow> 'a option list \<Rightarrow> int \<Rightarrow> error + 'a option list" where
  "to_list_loop a result i =
     (if i < al_size a then
        (case list_index (al_data a) i of
           Inl e \<Rightarrow> Inl e
         | Inr v \<Rightarrow>
             (case list_store result i v of
                Inl e \<Rightarrow> Inl e
              | Inr result' \<Rightarrow> to_list_loop a result' (i + 1)))
      else Inr result)"
  by pat_completeness auto
termination
  by (relation "measure (\<lambda>(a, result, i). nat (al_size a - i))") auto

declare to_list_loop.simps [simp del]

definition ArrayList_to_list :: "'a ArrayList \<Rightarrow> error + 'a option list" where
  "ArrayList_to_list a = to_list_loop a (none_list (al_size a)) 0"

text \<open>The states an \<^verbatim>\<open>ArrayList\<close> object can be in: the constructor's, and what a
  mutating method that returned leaves.  A method that raises does so before it assigns
  to any field, so it leaves the state it found.\<close>

inductive al_reachable :: "'a ArrayList \<Rightarrow> bool" where
  al_reach_init: "al_reachable (ArrayList_init c)"
| al_reach_add: "al_reachable a \<Longrightarrow> ArrayList_add a v = Inr a' \<Longrightarrow> al_reachable a'"
| al_reach_set: "al_reachable a \<Longrightarrow> ArrayList_set a i v = Inr a' \<Longrightarrow> al_reachable a'"
| al_reach_remove_last:
    "al_reachable a \<Longrightarrow> ArrayList_remove_last a = Inr (r, a') \<Longrightarrow> al_reachable a'"

text \<open>The representation invariant: the buffer has exactly \<open>capacity\<close> slots, of which
  the first \<open>size\<close> are in use.\<close>

definition al_inv :: "'a ArrayList \<Rightarrow> bool" where
  "al_inv a \<longleftrightarrow>
     1 \<le> al_capacity a \<and> 0 \<le> al_size a \<and> al_size a \<le> al_capacity a \<and>
     int (length (al_data a)) = al_capacity a"

text \<open>The logical contents: the slots in use, in index order.\<close>

definition al_contents :: "'a ArrayList \<Rightarrow> 'a option list" where
  "al_contents a = take (nat (al_size a)) (al_data a)"

section \<open>ListNode and LinkedList\<close>

text \<open>Nodes are objects that the list's \<^verbatim>\<open>head\<close> and \<^verbatim>\<open>tail\<close> and the nodes' own
  \<^verbatim>\<open>next\<close> fields refer to, and \<^verbatim>\<open>add_last\<close> assigns to a field of the node that
  \<^verbatim>\<open>tail\<close> names while \<^verbatim>\<open>head\<close> may reach the same node.  So the nodes live in an
  explicit store, addressed by natural numbers; a reference is an \<open>nat option\<close>,
  \<open>None\<close> for \<^verbatim>\<open>None\<close>.\<close>

record 'a ListNode =
  node_val :: "'a option"
  node_next :: "nat option"

definition ListNode_init :: "'a option \<Rightarrow> nat option \<Rightarrow> 'a ListNode" where
  "ListNode_init v next_node = \<lparr>node_val = v, node_next = next_node\<rparr>"

record 'a LinkedList =
  ll_store :: "nat \<Rightarrow> 'a ListNode option"
  ll_fresh :: nat
  ll_head :: "nat option"
  ll_tail :: "nat option"
  ll_size :: int

definition LinkedList_init :: "'a LinkedList" where
  "LinkedList_init =
     \<lparr>ll_store = Map.empty, ll_fresh = 0, ll_head = None, ll_tail = None, ll_size = 0\<rparr>"

definition LinkedList_add_last :: "'a LinkedList \<Rightarrow> 'a option \<Rightarrow> error + 'a LinkedList" where
  "LinkedList_add_last l v =
     (let node = ll_fresh l;
          l1 = l\<lparr>ll_store := (ll_store l)(node \<mapsto> ListNode_init v None),
                 ll_fresh := Suc node\<rparr>
      in case ll_tail l1 of
           None \<Rightarrow>
             Inr (l1\<lparr>ll_head := Some node, ll_tail := Some node, ll_size := ll_size l1 + 1\<rparr>)
         | Some t \<Rightarrow>
             (case ll_store l1 t of
                None \<Rightarrow> Inl NoSuchObject
              | Some tn \<Rightarrow>
                  Inr (l1\<lparr>ll_store := (ll_store l1)(t \<mapsto> tn\<lparr>node_next := Some node\<rparr>),
                          ll_tail := Some node, ll_size := ll_size l1 + 1\<rparr>)))"

definition LinkedList_remove_first :: "'a LinkedList \<Rightarrow> error + ('a option \<times> 'a LinkedList)" where
  "LinkedList_remove_first l =
     (case ll_head l of
        None \<Rightarrow> Inr (None, l)
      | Some h \<Rightarrow>
          (case ll_store l h of
             None \<Rightarrow> Inl NoSuchObject
           | Some hn \<Rightarrow>
               (let v = node_val hn;
                    l1 = l\<lparr>ll_head := node_next hn\<rparr>;
                    l2 = (if ll_head l1 = None then l1\<lparr>ll_tail := None\<rparr> else l1)
                in Inr (v, l2\<lparr>ll_size := ll_size l2 - 1\<rparr>))))"

definition LinkedList_size :: "'a LinkedList \<Rightarrow> int" where
  "LinkedList_size l = ll_size l"

section \<open>Stack and Queue\<close>

record 'a Stack =
  stack_items :: "'a ArrayList"

definition Stack_init :: "'a Stack" where
  "Stack_init = \<lparr>stack_items = ArrayList_new\<rparr>"

definition Stack_push :: "'a Stack \<Rightarrow> 'a option \<Rightarrow> error + 'a Stack" where
  "Stack_push s v =
     (case ArrayList_add (stack_items s) v of
        Inl e \<Rightarrow> Inl e
      | Inr a \<Rightarrow> Inr (s\<lparr>stack_items := a\<rparr>))"

definition Stack_pop :: "'a Stack \<Rightarrow> error + ('a option \<times> 'a Stack)" where
  "Stack_pop s =
     (case ArrayList_remove_last (stack_items s) of
        Inl e \<Rightarrow> Inl e
      | Inr (v, a) \<Rightarrow> Inr (v, s\<lparr>stack_items := a\<rparr>))"

definition Stack_peek :: "'a Stack \<Rightarrow> error + 'a option" where
  "Stack_peek s =
     (if ArrayList_size (stack_items s) = 0 then Inr None
      else ArrayList_get (stack_items s) (ArrayList_size (stack_items s) - 1))"

definition Stack_is_empty :: "'a Stack \<Rightarrow> bool" where
  "Stack_is_empty s \<longleftrightarrow> ArrayList_size (stack_items s) = 0"

record 'a Queue =
  queue_items :: "'a LinkedList"

definition Queue_init :: "'a Queue" where
  "Queue_init = \<lparr>queue_items = LinkedList_init\<rparr>"

definition Queue_enqueue :: "'a Queue \<Rightarrow> 'a option \<Rightarrow> error + 'a Queue" where
  "Queue_enqueue q v =
     (case LinkedList_add_last (queue_items q) v of
        Inl e \<Rightarrow> Inl e
      | Inr l \<Rightarrow> Inr (q\<lparr>queue_items := l\<rparr>))"

definition Queue_dequeue :: "'a Queue \<Rightarrow> error + ('a option \<times> 'a Queue)" where
  "Queue_dequeue q =
     (case LinkedList_remove_first (queue_items q) of
        Inl e \<Rightarrow> Inl e
      | Inr (v, l) \<Rightarrow> Inr (v, q\<lparr>queue_items := l\<rparr>))"

definition Queue_is_empty :: "'a Queue \<Rightarrow> bool" where
  "Queue_is_empty q \<longleftrightarrow> LinkedList_size (queue_items q) = 0"

section \<open>Comparison of Python values\<close>

text \<open>The heaps compare stored values with \<^verbatim>\<open><=\<close>, \<^verbatim>\<open><\<close>, \<^verbatim>\<open>>=\<close> and \<^verbatim>\<open>>\<close>.
  Values of the element type are linearly ordered; \<^verbatim>\<open>None\<close> supports none of the
  four operators, against anything: the comparison raises \<^verbatim>\<open>TypeError\<close>.\<close>

definition py_le :: "'a::linorder option \<Rightarrow> 'a option \<Rightarrow> error + bool" where
  "py_le x y = (case (x, y) of (Some a, Some b) \<Rightarrow> Inr (a \<le> b) | _ \<Rightarrow> Inl TypeError)"

definition py_lt :: "'a::linorder option \<Rightarrow> 'a option \<Rightarrow> error + bool" where
  "py_lt x y = (case (x, y) of (Some a, Some b) \<Rightarrow> Inr (a < b) | _ \<Rightarrow> Inl TypeError)"

definition py_ge :: "'a::linorder option \<Rightarrow> 'a option \<Rightarrow> error + bool" where
  "py_ge x y = (case (x, y) of (Some a, Some b) \<Rightarrow> Inr (a \<ge> b) | _ \<Rightarrow> Inl TypeError)"

definition py_gt :: "'a::linorder option \<Rightarrow> 'a option \<Rightarrow> error + bool" where
  "py_gt x y = (case (x, y) of (Some a, Some b) \<Rightarrow> Inr (a > b) | _ \<Rightarrow> Inl TypeError)"

section \<open>MinHeap\<close>

record 'a MinHeap =
  mh_data :: "'a ArrayList"

definition MinHeap_init :: "'a MinHeap" where
  "MinHeap_init = \<lparr>mh_data = ArrayList_new\<rparr>"

definition MinHeap_size :: "'a MinHeap \<Rightarrow> int" where
  "MinHeap_size h = ArrayList_size (mh_data h)"

definition MinHeap_peek :: "'a MinHeap \<Rightarrow> error + 'a option" where
  "MinHeap_peek h =
     (if ArrayList_size (mh_data h) = 0 then Inr None else ArrayList_get (mh_data h) 0)"

definition MinHeap_swap :: "'a MinHeap \<Rightarrow> int \<Rightarrow> int \<Rightarrow> error + 'a MinHeap" where
  "MinHeap_swap h i j =
     (case ArrayList_get (mh_data h) i of
        Inl e \<Rightarrow> Inl e
      | Inr temp \<Rightarrow>
          (case ArrayList_get (mh_data h) j of
             Inl e \<Rightarrow> Inl e
           | Inr vj \<Rightarrow>
               (case ArrayList_set (mh_data h) i vj of
                  Inl e \<Rightarrow> Inl e
                | Inr d1 \<Rightarrow>
                    (case ArrayList_set d1 j temp of
                       Inl e \<Rightarrow> Inl e
                     | Inr d2 \<Rightarrow> Inr (h\<lparr>mh_data := d2\<rparr>)))))"

function MinHeap_sift_up :: "'a::linorder MinHeap \<Rightarrow> int \<Rightarrow> error + 'a MinHeap" where
  "MinHeap_sift_up h idx =
     (if idx > 0 then
        (let parent = (idx - 1) div 2
         in case ArrayList_get (mh_data h) parent of
              Inl e \<Rightarrow> Inl e
            | Inr p \<Rightarrow>
                (case ArrayList_get (mh_data h) idx of
                   Inl e \<Rightarrow> Inl e
                 | Inr c \<Rightarrow>
                     (case py_le p c of
                        Inl e \<Rightarrow> Inl e
                      | Inr stop \<Rightarrow>
                          if stop then Inr h
                          else (case MinHeap_swap h parent idx of
                                  Inl e \<Rightarrow> Inl e
                                | Inr h' \<Rightarrow> MinHeap_sift_up h' parent))))
      else Inr h)"
  by pat_completeness auto
termination
  by (relation "measure (\<lambda>(h, idx). nat idx)") auto

declare MinHeap_sift_up.simps [simp del]

text \<open>The loop of \<^verbatim>\<open>_sift_down\<close>; \<open>sz\<close> is the local \<^verbatim>\<open>size\<close>, read once, before the loop.\<close>

function MinHeap_sift_down_loop :: "'a::linorder MinHeap \<Rightarrow> int \<Rightarrow> int \<Rightarrow> error + 'a MinHeap" where
  "MinHeap_sift_down_loop h sz idx =
     (let left = idx * 2 + 1;
          right = idx * 2 + 2;
          smallest = idx
      in case (if left < sz then
                 (case ArrayList_get (mh_data h) left of
                    Inl e \<Rightarrow> Inl e
                  | Inr l \<Rightarrow>
                      (case ArrayList_get (mh_data h) smallest of
                         Inl e \<Rightarrow> Inl e
                       | Inr s \<Rightarrow> py_lt l s))
               else Inr False) of
           Inl e \<Rightarrow> Inl e
         | Inr take_left \<Rightarrow>
             (let smallest = (if take_left then left else smallest)
              in case (if right < sz then
                         (case ArrayList_get (mh_data h) right of
                            Inl e \<Rightarrow> Inl e
                          | Inr r \<Rightarrow>
                              (case ArrayList_get (mh_data h) smallest of
                                 Inl e \<Rightarrow> Inl e
                               | Inr s \<Rightarrow> py_lt r s))
                       else Inr False) of
                   Inl e \<Rightarrow> Inl e
                 | Inr take_right \<Rightarrow>
                     (let smallest = (if take_right then right else smallest)
                      in if smallest = idx then Inr h
                         else (case MinHeap_swap h idx smallest of
                                 Inl e \<Rightarrow> Inl e
                               | Inr h' \<Rightarrow> MinHeap_sift_down_loop h' sz smallest))))"
  by pat_completeness auto
termination
  by (relation "measure (\<lambda>(h, sz, idx). nat (sz - idx))")
     (auto simp: ArrayList_get_def split: if_splits sum.splits)

declare MinHeap_sift_down_loop.simps [simp del]

definition MinHeap_sift_down :: "'a::linorder MinHeap \<Rightarrow> int \<Rightarrow> error + 'a MinHeap" where
  "MinHeap_sift_down h idx =
     (let sz = ArrayList_size (mh_data h) in MinHeap_sift_down_loop h sz idx)"

definition MinHeap_push :: "'a::linorder MinHeap \<Rightarrow> 'a option \<Rightarrow> error + 'a MinHeap" where
  "MinHeap_push h v =
     (case ArrayList_add (mh_data h) v of
        Inl e \<Rightarrow> Inl e
      | Inr d \<Rightarrow> MinHeap_sift_up (h\<lparr>mh_data := d\<rparr>) (ArrayList_size d - 1))"

definition MinHeap_pop :: "'a::linorder MinHeap \<Rightarrow> error + ('a option \<times> 'a MinHeap)" where
  "MinHeap_pop h =
     (if ArrayList_size (mh_data h) = 0 then Inr (None, h)
      else (case ArrayList_get (mh_data h) 0 of
              Inl e \<Rightarrow> Inl e
            | Inr top' \<Rightarrow>
                (case ArrayList_remove_last (mh_data h) of
                   Inl e \<Rightarrow> Inl e
                 | Inr (lst, d) \<Rightarrow>
                     if ArrayList_size d > 0 then
                       (case ArrayList_set d 0 lst of
                          Inl e \<Rightarrow> Inl e
                        | Inr d' \<Rightarrow>
                            (case MinHeap_sift_down (h\<lparr>mh_data := d'\<rparr>) 0 of
                               Inl e \<Rightarrow> Inl e
                             | Inr h' \<Rightarrow> Inr (top', h')))
                     else Inr (top', h\<lparr>mh_data := d\<rparr>))))"

section \<open>MaxHeap\<close>

record 'a MaxHeap =
  xh_data :: "'a ArrayList"

definition MaxHeap_init :: "'a MaxHeap" where
  "MaxHeap_init = \<lparr>xh_data = ArrayList_new\<rparr>"

definition MaxHeap_size :: "'a MaxHeap \<Rightarrow> int" where
  "MaxHeap_size h = ArrayList_size (xh_data h)"

definition MaxHeap_peek :: "'a MaxHeap \<Rightarrow> error + 'a option" where
  "MaxHeap_peek h =
     (if ArrayList_size (xh_data h) = 0 then Inr None else ArrayList_get (xh_data h) 0)"

definition MaxHeap_swap :: "'a MaxHeap \<Rightarrow> int \<Rightarrow> int \<Rightarrow> error + 'a MaxHeap" where
  "MaxHeap_swap h i j =
     (case ArrayList_get (xh_data h) i of
        Inl e \<Rightarrow> Inl e
      | Inr temp \<Rightarrow>
          (case ArrayList_get (xh_data h) j of
             Inl e \<Rightarrow> Inl e
           | Inr vj \<Rightarrow>
               (case ArrayList_set (xh_data h) i vj of
                  Inl e \<Rightarrow> Inl e
                | Inr d1 \<Rightarrow>
                    (case ArrayList_set d1 j temp of
                       Inl e \<Rightarrow> Inl e
                     | Inr d2 \<Rightarrow> Inr (h\<lparr>xh_data := d2\<rparr>)))))"

function MaxHeap_sift_up :: "'a::linorder MaxHeap \<Rightarrow> int \<Rightarrow> error + 'a MaxHeap" where
  "MaxHeap_sift_up h idx =
     (if idx > 0 then
        (let parent = (idx - 1) div 2
         in case ArrayList_get (xh_data h) parent of
              Inl e \<Rightarrow> Inl e
            | Inr p \<Rightarrow>
                (case ArrayList_get (xh_data h) idx of
                   Inl e \<Rightarrow> Inl e
                 | Inr c \<Rightarrow>
                     (case py_ge p c of
                        Inl e \<Rightarrow> Inl e
                      | Inr stop \<Rightarrow>
                          if stop then Inr h
                          else (case MaxHeap_swap h parent idx of
                                  Inl e \<Rightarrow> Inl e
                                | Inr h' \<Rightarrow> MaxHeap_sift_up h' parent))))
      else Inr h)"
  by pat_completeness auto
termination
  by (relation "measure (\<lambda>(h, idx). nat idx)") auto

declare MaxHeap_sift_up.simps [simp del]

text \<open>The loop of \<^verbatim>\<open>_sift_down\<close>; \<open>sz\<close> is the local \<^verbatim>\<open>size\<close>, read once, before the loop.\<close>

function MaxHeap_sift_down_loop :: "'a::linorder MaxHeap \<Rightarrow> int \<Rightarrow> int \<Rightarrow> error + 'a MaxHeap" where
  "MaxHeap_sift_down_loop h sz idx =
     (let left = idx * 2 + 1;
          right = idx * 2 + 2;
          largest = idx
      in case (if left < sz then
                 (case ArrayList_get (xh_data h) left of
                    Inl e \<Rightarrow> Inl e
                  | Inr l \<Rightarrow>
                      (case ArrayList_get (xh_data h) largest of
                         Inl e \<Rightarrow> Inl e
                       | Inr s \<Rightarrow> py_gt l s))
               else Inr False) of
           Inl e \<Rightarrow> Inl e
         | Inr take_left \<Rightarrow>
             (let largest = (if take_left then left else largest)
              in case (if right < sz then
                         (case ArrayList_get (xh_data h) right of
                            Inl e \<Rightarrow> Inl e
                          | Inr r \<Rightarrow>
                              (case ArrayList_get (xh_data h) largest of
                                 Inl e \<Rightarrow> Inl e
                               | Inr s \<Rightarrow> py_gt r s))
                       else Inr False) of
                   Inl e \<Rightarrow> Inl e
                 | Inr take_right \<Rightarrow>
                     (let largest = (if take_right then right else largest)
                      in if largest = idx then Inr h
                         else (case MaxHeap_swap h idx largest of
                                 Inl e \<Rightarrow> Inl e
                               | Inr h' \<Rightarrow> MaxHeap_sift_down_loop h' sz largest))))"
  by pat_completeness auto
termination
  by (relation "measure (\<lambda>(h, sz, idx). nat (sz - idx))")
     (auto simp: ArrayList_get_def split: if_splits sum.splits)

declare MaxHeap_sift_down_loop.simps [simp del]

definition MaxHeap_sift_down :: "'a::linorder MaxHeap \<Rightarrow> int \<Rightarrow> error + 'a MaxHeap" where
  "MaxHeap_sift_down h idx =
     (let sz = ArrayList_size (xh_data h) in MaxHeap_sift_down_loop h sz idx)"

definition MaxHeap_push :: "'a::linorder MaxHeap \<Rightarrow> 'a option \<Rightarrow> error + 'a MaxHeap" where
  "MaxHeap_push h v =
     (case ArrayList_add (xh_data h) v of
        Inl e \<Rightarrow> Inl e
      | Inr d \<Rightarrow> MaxHeap_sift_up (h\<lparr>xh_data := d\<rparr>) (ArrayList_size d - 1))"

definition MaxHeap_pop :: "'a::linorder MaxHeap \<Rightarrow> error + ('a option \<times> 'a MaxHeap)" where
  "MaxHeap_pop h =
     (if ArrayList_size (xh_data h) = 0 then Inr (None, h)
      else (case ArrayList_get (xh_data h) 0 of
              Inl e \<Rightarrow> Inl e
            | Inr top' \<Rightarrow>
                (case ArrayList_remove_last (xh_data h) of
                   Inl e \<Rightarrow> Inl e
                 | Inr (lst, d) \<Rightarrow>
                     if ArrayList_size d > 0 then
                       (case ArrayList_set d 0 lst of
                          Inl e \<Rightarrow> Inl e
                        | Inr d' \<Rightarrow>
                            (case MaxHeap_sift_down (h\<lparr>xh_data := d'\<rparr>) 0 of
                               Inl e \<Rightarrow> Inl e
                             | Inr h' \<Rightarrow> Inr (top', h')))
                     else Inr (top', h\<lparr>xh_data := d\<rparr>))))"

section \<open>Sequences of calls and reachable states\<close>

text \<open>\<^verbatim>\<open>for v in vs: a.add(v)\<close>\<close>

fun ArrayList_add_all :: "'a ArrayList \<Rightarrow> 'a option list \<Rightarrow> error + 'a ArrayList" where
  "ArrayList_add_all a [] = Inr a"
| "ArrayList_add_all a (v # vs) =
     (case ArrayList_add a v of Inl e \<Rightarrow> Inl e | Inr a' \<Rightarrow> ArrayList_add_all a' vs)"

text \<open>\<^verbatim>\<open>for v in vs: s.push(v)\<close>, and \<open>n\<close> calls of \<^verbatim>\<open>s.pop()\<close> with their results
  in call order.\<close>

fun Stack_push_all :: "'a Stack \<Rightarrow> 'a option list \<Rightarrow> error + 'a Stack" where
  "Stack_push_all s [] = Inr s"
| "Stack_push_all s (v # vs) =
     (case Stack_push s v of Inl e \<Rightarrow> Inl e | Inr s' \<Rightarrow> Stack_push_all s' vs)"

fun Stack_pop_n :: "'a Stack \<Rightarrow> nat \<Rightarrow> error + ('a option list \<times> 'a Stack)" where
  "Stack_pop_n s 0 = Inr ([], s)"
| "Stack_pop_n s (Suc n) =
     (case Stack_pop s of
        Inl e \<Rightarrow> Inl e
      | Inr (v, s') \<Rightarrow>
          (case Stack_pop_n s' n of
             Inl e \<Rightarrow> Inl e
           | Inr (vs, s'') \<Rightarrow> Inr (v # vs, s'')))"

fun Queue_enqueue_all :: "'a Queue \<Rightarrow> 'a option list \<Rightarrow> error + 'a Queue" where
  "Queue_enqueue_all q [] = Inr q"
| "Queue_enqueue_all q (v # vs) =
     (case Queue_enqueue q v of Inl e \<Rightarrow> Inl e | Inr q' \<Rightarrow> Queue_enqueue_all q' vs)"

fun Queue_dequeue_n :: "'a Queue \<Rightarrow> nat \<Rightarrow> error + ('a option list \<times> 'a Queue)" where
  "Queue_dequeue_n q 0 = Inr ([], q)"
| "Queue_dequeue_n q (Suc n) =
     (case Queue_dequeue q of
        Inl e \<Rightarrow> Inl e
      | Inr (v, q') \<Rightarrow>
          (case Queue_dequeue_n q' n of
             Inl e \<Rightarrow> Inl e
           | Inr (vs, q'') \<Rightarrow> Inr (v # vs, q'')))"

text \<open>The states a \<^verbatim>\<open>LinkedList\<close> object can be in: the constructor's, and what
  \<^verbatim>\<open>add_last\<close> and \<^verbatim>\<open>remove_first\<close> leave.\<close>

inductive ll_reachable :: "'a LinkedList \<Rightarrow> bool" where
  ll_reach_init: "ll_reachable LinkedList_init"
| ll_reach_add_last:
    "ll_reachable l \<Longrightarrow> LinkedList_add_last l v = Inr l' \<Longrightarrow> ll_reachable l'"
| ll_reach_remove_first:
    "ll_reachable l \<Longrightarrow> LinkedList_remove_first l = Inr (r, l') \<Longrightarrow> ll_reachable l'"

text \<open>The chain of nodes from a reference: \<open>ll_path st p as\<close> says that following
  \<^verbatim>\<open>next\<close> from \<open>p\<close> visits exactly the addresses \<open>as\<close>, in order, and then reaches
  \<^verbatim>\<open>None\<close>.\<close>

fun ll_path :: "(nat \<Rightarrow> 'a ListNode option) \<Rightarrow> nat option \<Rightarrow> nat list \<Rightarrow> bool" where
  "ll_path st p [] \<longleftrightarrow> p = None"
| "ll_path st p (a # as) \<longleftrightarrow>
     p = Some a \<and> (case st a of None \<Rightarrow> False | Some n \<Rightarrow> ll_path st (node_next n) as)"

text \<open>The representation invariant of a \<^verbatim>\<open>LinkedList\<close> whose chain is \<open>as\<close>: the
  chain starts at \<^verbatim>\<open>head\<close>, visits distinct allocated nodes, \<^verbatim>\<open>_size\<close> counts them
  and \<^verbatim>\<open>tail\<close> is the last of them.\<close>

definition ll_inv :: "'a LinkedList \<Rightarrow> nat list \<Rightarrow> bool" where
  "ll_inv l as \<longleftrightarrow>
     ll_path (ll_store l) (ll_head l) as \<and> distinct as \<and>
     list_all (\<lambda>a. a < ll_fresh l) as \<and>
     ll_size l = int (length as) \<and>
     ll_tail l = (if as = [] then None else Some (last as))"

text \<open>The values held by the nodes at the addresses \<open>as\<close>.\<close>

definition ll_values :: "(nat \<Rightarrow> 'a ListNode option) \<Rightarrow> nat list \<Rightarrow> 'a option list" where
  "ll_values st as = map (\<lambda>a. case st a of None \<Rightarrow> None | Some n \<Rightarrow> node_val n) as"

text \<open>A heap is driven by interleaved calls of \<^verbatim>\<open>push\<close> (of a value that is not
  \<^verbatim>\<open>None\<close>) and \<^verbatim>\<open>pop\<close>; running a sequence of calls collects what the pops
  returned, in call order.\<close>

datatype 'a heap_op = Push 'a | Pop

fun MinHeap_run :: "'a::linorder MinHeap \<Rightarrow> 'a heap_op list \<Rightarrow> error + ('a option list \<times> 'a MinHeap)" where
  "MinHeap_run h [] = Inr ([], h)"
| "MinHeap_run h (Push v # ops) =
     (case MinHeap_push h (Some v) of Inl e \<Rightarrow> Inl e | Inr h' \<Rightarrow> MinHeap_run h' ops)"
| "MinHeap_run h (Pop # ops) =
     (case MinHeap_pop h of
        Inl e \<Rightarrow> Inl e
      | Inr (r, h') \<Rightarrow>
          (case MinHeap_run h' ops of
             Inl e \<Rightarrow> Inl e
           | Inr (rs, h'') \<Rightarrow> Inr (r # rs, h'')))"

fun MaxHeap_run :: "'a::linorder MaxHeap \<Rightarrow> 'a heap_op list \<Rightarrow> error + ('a option list \<times> 'a MaxHeap)" where
  "MaxHeap_run h [] = Inr ([], h)"
| "MaxHeap_run h (Push v # ops) =
     (case MaxHeap_push h (Some v) of Inl e \<Rightarrow> Inl e | Inr h' \<Rightarrow> MaxHeap_run h' ops)"
| "MaxHeap_run h (Pop # ops) =
     (case MaxHeap_pop h of
        Inl e \<Rightarrow> Inl e
      | Inr (r, h') \<Rightarrow>
          (case MaxHeap_run h' ops of
             Inl e \<Rightarrow> Inl e
           | Inr (rs, h'') \<Rightarrow> Inr (r # rs, h'')))"

text \<open>The values a sequence of calls pushed, and the values among the results of pops
  (a pop of an empty heap returns \<^verbatim>\<open>None\<close> and removes nothing).\<close>

fun pushed :: "'a heap_op list \<Rightarrow> 'a list" where
  "pushed [] = []"
| "pushed (Push v # ops) = v # pushed ops"
| "pushed (Pop # ops) = pushed ops"

fun popped :: "'a option list \<Rightarrow> 'a list" where
  "popped [] = []"
| "popped (None # rs) = popped rs"
| "popped (Some v # rs) = v # popped rs"

section \<open>Binary heaps on lists\<close>

text \<open>The list-level counterparts of the heap methods, over an arbitrary comparison
  \<open>le\<close>: \<open>(\<le>)\<close> for \<^verbatim>\<open>MinHeap\<close>, \<open>(\<ge>)\<close> for \<^verbatim>\<open>MaxHeap\<close>.  They are what the
  methods compute on the contents of the backing array, and carry the proofs.\<close>

definition total_preorder :: "('a \<Rightarrow> 'a \<Rightarrow> bool) \<Rightarrow> bool" where
  "total_preorder le \<longleftrightarrow>
     (\<forall>x y. le x y \<or> le y x) \<and> (\<forall>x y z. le x y \<longrightarrow> le y z \<longrightarrow> le x z)"

definition heap_ok :: "('a \<Rightarrow> 'a \<Rightarrow> bool) \<Rightarrow> 'a list \<Rightarrow> bool" where
  "heap_ok le xs \<longleftrightarrow> (\<forall>j. 0 < j \<and> j < length xs \<longrightarrow> le (xs ! ((j - 1) div 2)) (xs ! j))"

definition swap_list :: "'a list \<Rightarrow> nat \<Rightarrow> nat \<Rightarrow> 'a list" where
  "swap_list xs i j = xs[i := xs ! j, j := xs ! i]"

function sift_up_list :: "('a \<Rightarrow> 'a \<Rightarrow> bool) \<Rightarrow> 'a list \<Rightarrow> nat \<Rightarrow> 'a list" where
  "sift_up_list le xs i =
     (if 0 < i then
        (let p = (i - 1) div 2
         in if le (xs ! p) (xs ! i) then xs else sift_up_list le (swap_list xs p i) p)
      else xs)"
  by pat_completeness auto
termination
  by (relation "measure (\<lambda>(le, xs, i). i)") auto

declare sift_up_list.simps [simp del]

function sift_down_list :: "('a \<Rightarrow> 'a \<Rightarrow> bool) \<Rightarrow> 'a list \<Rightarrow> nat \<Rightarrow> 'a list" where
  "sift_down_list le xs i =
     (let l = i * 2 + 1;
          r = i * 2 + 2;
          s1 = (if l < length xs \<and> \<not> le (xs ! i) (xs ! l) then l else i);
          s2 = (if r < length xs \<and> \<not> le (xs ! s1) (xs ! r) then r else s1)
      in if s2 = i then xs else sift_down_list le (swap_list xs i s2) s2)"
  by pat_completeness auto
termination
  by (relation "measure (\<lambda>(le, xs, i). length xs - i)")
     (auto simp: swap_list_def split: if_splits)

declare sift_down_list.simps [simp del]

definition push_list :: "('a \<Rightarrow> 'a \<Rightarrow> bool) \<Rightarrow> 'a list \<Rightarrow> 'a \<Rightarrow> 'a list" where
  "push_list le xs v = sift_up_list le (xs @ [v]) (length xs)"

definition pop_list :: "('a \<Rightarrow> 'a \<Rightarrow> bool) \<Rightarrow> 'a list \<Rightarrow> 'a list" where
  "pop_list le xs =
     (if length xs \<le> 1 then [] else sift_down_list le ((butlast xs)[0 := last xs]) 0)"

text \<open>What \<open>sift_up_list\<close> needs at index \<open>i\<close>: the heap order holds everywhere except
  between \<open>i\<close> and its parent, and the parent of \<open>i\<close> is in order with the children
  of \<open>i\<close>.\<close>

definition up_inv :: "('a \<Rightarrow> 'a \<Rightarrow> bool) \<Rightarrow> 'a list \<Rightarrow> nat \<Rightarrow> bool" where
  "up_inv le xs i \<longleftrightarrow>
     i < length xs \<and>
     (\<forall>j. 0 < j \<and> j < length xs \<and> j \<noteq> i \<longrightarrow> le (xs ! ((j - 1) div 2)) (xs ! j)) \<and>
     (\<forall>j. 0 < j \<and> j < length xs \<and> (j - 1) div 2 = i \<and> 0 < i \<longrightarrow>
          le (xs ! ((i - 1) div 2)) (xs ! j))"

text \<open>What \<open>sift_down_list\<close> needs at index \<open>i\<close>: the heap order holds everywhere
  except between \<open>i\<close> and its children, and the parent of \<open>i\<close> is in order with the
  children of \<open>i\<close>.\<close>

definition down_inv :: "('a \<Rightarrow> 'a \<Rightarrow> bool) \<Rightarrow> 'a list \<Rightarrow> nat \<Rightarrow> bool" where
  "down_inv le xs i \<longleftrightarrow>
     (\<forall>j. 0 < j \<and> j < length xs \<and> (j - 1) div 2 \<noteq> i \<longrightarrow> le (xs ! ((j - 1) div 2)) (xs ! j)) \<and>
     (\<forall>j. 0 < j \<and> j < length xs \<and> (j - 1) div 2 = i \<and> 0 < i \<longrightarrow>
          le (xs ! ((i - 1) div 2)) (xs ! j))"

text \<open>The index \<open>sift_down_list\<close> moves to: \<open>i\<close> itself when it stops.\<close>

definition down_choice :: "('a \<Rightarrow> 'a \<Rightarrow> bool) \<Rightarrow> 'a list \<Rightarrow> nat \<Rightarrow> nat" where
  "down_choice le xs i =
     (let l = i * 2 + 1;
          r = i * 2 + 2;
          s1 = (if l < length xs \<and> \<not> le (xs ! i) (xs ! l) then l else i);
          s2 = (if r < length xs \<and> \<not> le (xs ! s1) (xs ! r) then r else s1)
      in s2)"

text \<open>The backing array of a heap holds the values \<open>xs\<close>: it satisfies the
  representation invariant and its slots in use are exactly \<open>xs\<close>, none of them
  \<^verbatim>\<open>None\<close>.\<close>

definition al_holds :: "'a ArrayList \<Rightarrow> 'a list \<Rightarrow> bool" where
  "al_holds a xs \<longleftrightarrow> al_inv a \<and> al_contents a = map Some xs"

section \<open>Facts about list indexing and ArrayList\<close>

lemma list_index_in_range:
  "0 \<le> i \<Longrightarrow> i < int (length xs) \<Longrightarrow> list_index xs i = Inr (xs ! nat i)"
  by (simp add: list_index_def)

lemma list_store_in_range:
  "0 \<le> i \<Longrightarrow> i < int (length xs) \<Longrightarrow> list_store xs i v = Inr (xs[nat i := v])"
  by (simp add: list_store_def)

lemma al_inv_init: "al_inv (ArrayList_init c)"
  by (simp add: al_inv_def ArrayList_init_def none_list_def Let_def)

lemma grow_loop_result:
  "0 \<le> i \<Longrightarrow> al_size a \<le> int (length (al_data a)) \<Longrightarrow> al_size a \<le> int (length nd) \<Longrightarrow>
   \<exists>nd'. grow_loop a nd i = Inr nd' \<and> length nd' = length nd \<and>
     (\<forall>k < length nd. nd' ! k =
        (if nat i \<le> k \<and> int k < al_size a then al_data a ! k else nd ! k))"
proof (induction a nd i rule: grow_loop.induct)
  case (1 a nd i)
  show ?case
  proof (cases "i < al_size a")
    case False
    then show ?thesis by (subst grow_loop.simps) auto
  next
    case True
    have rd: "list_index (al_data a) i = Inr (al_data a ! nat i)"
      using True 1(2,3) by (intro list_index_in_range) auto
    have wr: "list_store nd i (al_data a ! nat i) = Inr (nd[nat i := al_data a ! nat i])"
      using True 1(2,4) by (intro list_store_in_range) auto
    obtain nd' where r: "grow_loop a (nd[nat i := al_data a ! nat i]) (i + 1) = Inr nd'"
        and l: "length nd' = length nd"
        and c: "\<forall>k < length nd. nd' ! k =
                  (if nat (i + 1) \<le> k \<and> int k < al_size a then al_data a ! k
                   else nd[nat i := al_data a ! nat i] ! k)"
      using "1.IH"[OF True rd wr] 1(2,3,4) by auto
    have "grow_loop a nd i = Inr nd'"
      by (subst grow_loop.simps) (simp add: True rd wr r)
    moreover have "\<forall>k < length nd. nd' ! k =
        (if nat i \<le> k \<and> int k < al_size a then al_data a ! k else nd ! k)"
    proof (intro allI impI)
      fix k assume k: "k < length nd"
      show "nd' ! k = (if nat i \<le> k \<and> int k < al_size a then al_data a ! k else nd ! k)"
      proof (cases "k = nat i")
        case True
        then show ?thesis using c k 1(2) \<open>i < al_size a\<close> by auto
      next
        case False
        then show ?thesis using c k 1(2) by (auto simp: nat_add_distrib)
      qed
    qed
    ultimately show ?thesis using l by blast
  qed
qed

lemma al_size_contents: "al_inv a \<Longrightarrow> int (length (al_contents a)) = al_size a"
  by (auto simp: al_inv_def al_contents_def)

lemma al_grow_ok:
  assumes "al_inv a"
  shows "\<exists>a'. ArrayList_grow a = Inr a' \<and> al_inv a' \<and> al_size a' = al_size a \<and>
           al_capacity a' = 2 * al_capacity a \<and> al_contents a' = al_contents a"
proof -
  let ?nd = "none_list (al_capacity a * 2) :: 'a option list"
  have len: "int (length ?nd) = al_capacity a * 2"
    using assms by (simp add: none_list_def al_inv_def)
  obtain nd' where r: "grow_loop a ?nd 0 = Inr nd'" and l: "length nd' = length ?nd"
    and c: "\<forall>k < length ?nd. nd' ! k =
        (if nat 0 \<le> k \<and> int k < al_size a then al_data a ! k else ?nd ! k)"
    using grow_loop_result[of 0 a ?nd] assms len unfolding al_inv_def by fastforce
  let ?a' = "a\<lparr>al_data := nd', al_capacity := al_capacity a * 2\<rparr>"
  have 1: "ArrayList_grow a = Inr ?a'"
    by (simp add: ArrayList_grow_def Let_def r)
  have 2: "al_inv ?a'" using assms l len by (simp add: al_inv_def)
  have 3: "al_contents ?a' = al_contents a"
    unfolding al_contents_def using c l len assms
    by (auto simp: list_eq_iff_nth_eq al_inv_def)
  show ?thesis using 1 2 3 by simp
qed

lemma al_add_ok:
  assumes "al_inv a"
  shows "\<exists>a'. ArrayList_add a v = Inr a' \<and> al_inv a' \<and> al_size a' = al_size a + 1 \<and>
           al_contents a' = al_contents a @ [v]"
proof -
  have "\<exists>a1. (if al_size a \<ge> al_capacity a then ArrayList_grow a else Inr a) = Inr a1 \<and>
     al_inv a1 \<and> al_size a1 = al_size a \<and> al_contents a1 = al_contents a \<and>
     al_size a1 < al_capacity a1"
  proof (cases "al_size a \<ge> al_capacity a")
    case True
    obtain a1 where "ArrayList_grow a = Inr a1" "al_inv a1" "al_size a1 = al_size a"
      "al_capacity a1 = 2 * al_capacity a" "al_contents a1 = al_contents a"
      using al_grow_ok[OF assms] by blast
    moreover have "al_size a < 2 * al_capacity a"
      using assms unfolding al_inv_def by linarith
    ultimately show ?thesis using True by simp
  next
    case False
    then show ?thesis using assms by simp
  qed
  then obtain a1 where g: "(if al_size a \<ge> al_capacity a then ArrayList_grow a else Inr a) = Inr a1"
    and i1: "al_inv a1" and s1: "al_size a1 = al_size a" and c1: "al_contents a1 = al_contents a"
    and lt: "al_size a1 < al_capacity a1"
    by blast
  have wr: "list_store (al_data a1) (al_size a1) v = Inr ((al_data a1)[nat (al_size a1) := v])"
    using i1 lt by (intro list_store_in_range) (auto simp: al_inv_def)
  let ?a' = "a1\<lparr>al_data := (al_data a1)[nat (al_size a1) := v], al_size := al_size a1 + 1\<rparr>"
  have 1: "ArrayList_add a v = Inr ?a'"
    unfolding ArrayList_add_def g by (simp add: wr)
  have 2: "al_inv ?a'" using i1 lt by (simp add: al_inv_def)
  have n: "nat (al_size a1) < length (al_data a1)" and nn: "0 \<le> al_size a1"
    using i1 lt unfolding al_inv_def by linarith+
  have "al_contents ?a' = al_contents a1 @ [v]"
    using n nn unfolding al_contents_def
    by (simp add: nat_add_distrib take_Suc_conv_app_nth)
  then show ?thesis using 1 2 s1 c1 by simp
qed

lemma al_get_ok:
  "al_inv a \<Longrightarrow> 0 \<le> i \<Longrightarrow> i < al_size a \<Longrightarrow> ArrayList_get a i = Inr (al_contents a ! nat i)"
  by (simp add: ArrayList_get_def al_inv_def al_contents_def list_index_in_range)

lemma al_set_eq:
  "al_inv a \<Longrightarrow> 0 \<le> i \<Longrightarrow> i < al_size a \<Longrightarrow>
   ArrayList_set a i v = Inr (a\<lparr>al_data := (al_data a)[nat i := v]\<rparr>)"
  by (simp add: ArrayList_set_def al_inv_def list_store_in_range)

lemma al_set_inv: "al_inv a \<Longrightarrow> al_inv (a\<lparr>al_data := (al_data a)[k := v]\<rparr>)"
  by (simp add: al_inv_def)

lemma al_set_contents:
  "al_contents (a\<lparr>al_data := (al_data a)[k := v]\<rparr>) = (al_contents a)[k := v]"
  by (simp add: al_contents_def take_update_swap)

lemma al_remove_last_ok:
  assumes "al_inv a" "al_size a \<noteq> 0"
  shows "\<exists>a'. ArrayList_remove_last a = Inr (last (al_contents a), a') \<and> al_inv a' \<and>
           al_size a' = al_size a - 1 \<and> al_contents a' = butlast (al_contents a)"
proof -
  have pos: "0 < al_size a" and le: "al_size a \<le> int (length (al_data a))"
    using assms by (auto simp: al_inv_def)
  have rd: "list_index (al_data a) (al_size a - 1) = Inr (al_data a ! nat (al_size a - 1))"
    using pos le by (intro list_index_in_range) auto
  have wr: "list_store (al_data a) (al_size a - 1) None = Inr ((al_data a)[nat (al_size a - 1) := None])"
    using pos le by (intro list_store_in_range) auto
  let ?a' = "a\<lparr>al_data := (al_data a)[nat (al_size a - 1) := None], al_size := al_size a - 1\<rparr>"
  have 1: "ArrayList_remove_last a = Inr (al_data a ! nat (al_size a - 1), ?a')"
    using assms(2) by (simp add: ArrayList_remove_last_def rd wr)
  have 2: "al_inv ?a'" using assms by (simp add: al_inv_def)
  have ne: "al_contents a \<noteq> []" using pos le by (auto simp: al_contents_def)
  have 3: "last (al_contents a) = al_data a ! nat (al_size a - 1)"
    using pos le ne by (simp add: al_contents_def last_conv_nth nat_diff_distrib)
  have 4: "al_contents ?a' = butlast (al_contents a)"
    using pos le by (simp add: al_contents_def butlast_take nat_diff_distrib)
  show ?thesis using 1 2 3 4 by simp
qed

lemma al_reachable_inv: "al_reachable a \<Longrightarrow> al_inv a"
proof (induction rule: al_reachable.induct)
  case (al_reach_init c)
  show ?case by (rule al_inv_init)
next
  case (al_reach_add a v a')
  then show ?case using al_add_ok[of a v] by auto
next
  case (al_reach_set a i v a')
  then show ?case
    by (auto simp: ArrayList_set_def list_store_def al_inv_def Let_def split: if_splits)
next
  case (al_reach_remove_last a r a')
  then show ?case using al_remove_last_ok[of a]
    by (cases "al_size a = 0") (auto simp: ArrayList_remove_last_def)
qed

lemma to_list_empty: "al_size a = 0 \<Longrightarrow> ArrayList_to_list a = Inr []"
  by (simp add: ArrayList_to_list_def to_list_loop.simps none_list_def)

text \<open>Claim C8.  For every requested capacity \<open>c\<close> the constructor yields an empty
  array (size 0, no elements) whose capacity is \<open>c\<close> when \<open>c \<ge> 1\<close> and exactly 1 when
  \<open>c\<close> is 0 or negative, with a buffer of that many slots; the capacity used when no
  argument is given is the constant 4, which is at least 1.\<close>

theorem ArrayList_init_capacity:
  "al_capacity (ArrayList_init c) = (if c < 1 then 1 else c) \<and>
   ArrayList_size (ArrayList_init c) = 0 \<and>
   ArrayList_to_list (ArrayList_init c) = Inr [] \<and>
   int (length (al_data (ArrayList_init c))) = al_capacity (ArrayList_init c) \<and>
   ArrayList_new = ArrayList_init default_capacity \<and> 1 \<le> default_capacity \<and>
   al_capacity ArrayList_new = default_capacity"
proof -
  have sz: "al_size (ArrayList_init c) = 0"
    by (simp add: ArrayList_init_def Let_def)
  have 1: "al_capacity (ArrayList_init c) = (if c < 1 then 1 else c)"
    by (simp add: ArrayList_init_def Let_def)
  have 2: "ArrayList_size (ArrayList_init c) = 0"
    using sz by (simp add: ArrayList_size_def)
  have 3: "ArrayList_to_list (ArrayList_init c) = Inr []"
    using sz by (rule to_list_empty)
  have 4: "int (length (al_data (ArrayList_init c))) = al_capacity (ArrayList_init c)"
    by (simp add: ArrayList_init_def none_list_def Let_def)
  have 5: "ArrayList_new = ArrayList_init default_capacity"
    by (simp add: ArrayList_new_def)
  have 6: "1 \<le> default_capacity"
    by (simp add: default_capacity_def)
  have 7: "al_capacity ArrayList_new = default_capacity"
    by (simp add: ArrayList_new_def ArrayList_init_def default_capacity_def Let_def)
  show ?thesis using 1 2 3 4 5 6 7 by blast
qed

text \<open>Claim C6.  In every reachable state of an \<^verbatim>\<open>ArrayList\<close> of logical size \<open>S\<close>,
  \<^verbatim>\<open>get(i)\<close> and \<^verbatim>\<open>set(i, v)\<close> raise \<^verbatim>\<open>IndexError\<close> when \<open>i < 0\<close> or \<open>i \<ge> S\<close>, and
  otherwise succeed: \<^verbatim>\<open>get\<close> returns the element at \<open>i\<close> and \<^verbatim>\<open>set\<close> replaces exactly
  that element.  In particular \<^verbatim>\<open>get(-1)\<close> and \<^verbatim>\<open>get(size())\<close> raise on any array, empty
  or not; no index is clamped or wrapped.\<close>

theorem ArrayList_bounds:
  assumes "al_reachable a"
  shows "(i < 0 \<or> i \<ge> ArrayList_size a \<longrightarrow>
            ArrayList_get a i = Inl IndexError \<and> ArrayList_set a i v = Inl IndexError) \<and>
         (0 \<le> i \<and> i < ArrayList_size a \<longrightarrow>
            ArrayList_get a i = Inr (al_contents a ! nat i) \<and>
            (\<exists>a'. ArrayList_set a i v = Inr a' \<and> ArrayList_size a' = ArrayList_size a \<and>
                  al_contents a' = (al_contents a)[nat i := v])) \<and>
         ArrayList_get a (- 1) = Inl IndexError \<and>
         ArrayList_get a (ArrayList_size a) = Inl IndexError"
proof -
  have inv: "al_inv a" using assms by (rule al_reachable_inv)
  have out: "i < 0 \<or> i \<ge> ArrayList_size a \<longrightarrow>
            ArrayList_get a i = Inl IndexError \<and> ArrayList_set a i v = Inl IndexError"
    by (auto simp: ArrayList_get_def ArrayList_set_def ArrayList_size_def)
  have inside: "0 \<le> i \<and> i < ArrayList_size a \<longrightarrow>
            ArrayList_get a i = Inr (al_contents a ! nat i) \<and>
            (\<exists>a'. ArrayList_set a i v = Inr a' \<and> ArrayList_size a' = ArrayList_size a \<and>
                  al_contents a' = (al_contents a)[nat i := v])"
    using inv by (auto simp: ArrayList_size_def al_get_ok al_set_eq al_set_contents)
  have edge: "ArrayList_get a (- 1) = Inl IndexError"
    "ArrayList_get a (ArrayList_size a) = Inl IndexError"
    by (simp_all add: ArrayList_get_def ArrayList_size_def)
  show ?thesis using out inside edge by blast
qed

text \<open>The theorem at the array holding the single value 10, reached by one \<^verbatim>\<open>add\<close>
  from capacity 1.\<close>

theorem ArrayList_bounds_witness:
  "al_reachable \<lparr>al_capacity = 1, al_size = 1, al_data = [Some (10::int)]\<rparr> \<and>
   ArrayList_get \<lparr>al_capacity = 1, al_size = 1, al_data = [Some (10::int)]\<rparr> 0 = Inr (Some 10) \<and>
   ArrayList_get \<lparr>al_capacity = 1, al_size = 1, al_data = [Some (10::int)]\<rparr> 1 = Inl IndexError \<and>
   ArrayList_set \<lparr>al_capacity = 1, al_size = 1, al_data = [Some (10::int)]\<rparr> (- 1) (Some 3) = Inl IndexError"
proof -
  let ?a = "\<lparr>al_capacity = 1, al_size = 1, al_data = [Some (10::int)]\<rparr>"
  have add: "ArrayList_add (ArrayList_init 1) (Some (10::int)) = Inr ?a"
    by (simp add: ArrayList_add_def ArrayList_init_def none_list_def list_store_def Let_def)
  have r: "al_reachable ?a"
    by (rule al_reach_add[OF al_reach_init add])
  have c: "al_contents ?a = [Some 10]"
    by (simp add: al_contents_def)
  show ?thesis
    using r ArrayList_bounds[OF r, of 0 "Some 3"] ArrayList_bounds[OF r, of 1 "Some 3"]
      ArrayList_bounds[OF r, of "- 1" "Some 3"]
    by (simp add: c ArrayList_size_def)
qed

lemma add_all_ok:
  "al_inv a \<Longrightarrow> \<exists>a'. ArrayList_add_all a vs = Inr a' \<and> al_inv a' \<and>
     al_contents a' = al_contents a @ vs"
proof (induction vs arbitrary: a)
  case Nil
  then show ?case by simp
next
  case (Cons v vs)
  obtain a1 where 1: "ArrayList_add a v = Inr a1" "al_inv a1" "al_contents a1 = al_contents a @ [v]"
    using al_add_ok[OF Cons.prems, of v] by blast
  obtain a' where 2: "ArrayList_add_all a1 vs = Inr a'" "al_inv a'" "al_contents a' = al_contents a1 @ vs"
    using Cons.IH[OF 1(2)] by blast
  show ?case using 1 2 by simp
qed

lemma al_contents_init: "al_contents (ArrayList_init c) = []"
  by (simp add: al_contents_def ArrayList_init_def Let_def)

text \<open>Claim C2.  For every starting capacity \<open>c\<close> and every sequence \<open>vs\<close> of \<open>N\<close>
  values, adding them one by one to a fresh \<^verbatim>\<open>ArrayList(c)\<close> raises nothing, leaves
  \<^verbatim>\<open>size()\<close> equal to \<open>N\<close>, and \<^verbatim>\<open>get(i)\<close> returns the \<open>i\<close>-th added value for every
  \<open>0 \<le> i < N\<close>, however many times the buffer grew.\<close>

theorem ArrayList_add_growth:
  "\<exists>a. ArrayList_add_all (ArrayList_init c) vs = Inr a \<and>
       ArrayList_size a = int (length vs) \<and>
       map (\<lambda>i. ArrayList_get a (int i)) [0..<length vs] = map Inr vs"
proof -
  obtain a where r: "ArrayList_add_all (ArrayList_init c) vs = Inr a" and inv: "al_inv a"
    and c: "al_contents a = vs"
    using add_all_ok[OF al_inv_init, of c vs] by (auto simp: al_contents_init)
  have sz: "al_size a = int (length vs)"
    using al_size_contents[OF inv] c by simp
  have "map (\<lambda>i. ArrayList_get a (int i)) [0..<length vs] = map Inr vs"
    by (rule nth_equalityI) (simp_all add: al_get_ok[OF inv] sz c)
  then show ?thesis using r sz by (simp add: ArrayList_size_def)
qed


section \<open>Stack: last in, first out\<close>

lemma Stack_push_ok:
  assumes "al_inv (stack_items s)"
  shows "\<exists>s'. Stack_push s v = Inr s' \<and> al_inv (stack_items s') \<and>
           al_contents (stack_items s') = al_contents (stack_items s) @ [v]"
proof -
  obtain a' where "ArrayList_add (stack_items s) v = Inr a'" "al_inv a'"
    "al_contents a' = al_contents (stack_items s) @ [v]"
    using al_add_ok[OF assms, of v] by blast
  then show ?thesis by (simp add: Stack_push_def)
qed

lemma Stack_push_all_ok:
  "al_inv (stack_items s) \<Longrightarrow>
   \<exists>s'. Stack_push_all s vs = Inr s' \<and> al_inv (stack_items s') \<and>
        al_contents (stack_items s') = al_contents (stack_items s) @ vs"
proof (induction vs arbitrary: s)
  case Nil
  then show ?case by simp
next
  case (Cons v vs)
  obtain s1 where 1: "Stack_push s v = Inr s1" "al_inv (stack_items s1)"
    "al_contents (stack_items s1) = al_contents (stack_items s) @ [v]"
    using Stack_push_ok[OF Cons.prems, of v] by blast
  obtain s' where 2: "Stack_push_all s1 vs = Inr s'" "al_inv (stack_items s')"
    "al_contents (stack_items s') = al_contents (stack_items s1) @ vs"
    using Cons.IH[OF 1(2)] by blast
  show ?case using 1 2 by simp
qed

lemma Stack_pop_ok:
  assumes "al_inv (stack_items s)" "al_contents (stack_items s) = xs @ [x]"
  shows "\<exists>s'. Stack_pop s = Inr (x, s') \<and> al_inv (stack_items s') \<and>
           al_contents (stack_items s') = xs"
proof -
  have "al_size (stack_items s) \<noteq> 0"
    using al_size_contents[OF assms(1)] assms(2) by auto
  then obtain a' where "ArrayList_remove_last (stack_items s) = Inr (last (al_contents (stack_items s)), a')"
    "al_inv a'" "al_contents a' = butlast (al_contents (stack_items s))"
    using al_remove_last_ok[OF assms(1)] by blast
  then show ?thesis using assms(2) by (simp add: Stack_pop_def)
qed

lemma Stack_pop_n_ok:
  "al_inv (stack_items s) \<Longrightarrow> al_contents (stack_items s) = xs \<Longrightarrow>
   \<exists>s'. Stack_pop_n s (length xs) = Inr (rev xs, s') \<and> al_inv (stack_items s') \<and>
        al_contents (stack_items s') = []"
proof (induction xs arbitrary: s rule: rev_induct)
  case Nil
  then show ?case by simp
next
  case (snoc x xs)
  obtain s1 where 1: "Stack_pop s = Inr (x, s1)" "al_inv (stack_items s1)"
    "al_contents (stack_items s1) = xs"
    using Stack_pop_ok[OF snoc.prems] by blast
  obtain s' where 2: "Stack_pop_n s1 (length xs) = Inr (rev xs, s')" "al_inv (stack_items s')"
    "al_contents (stack_items s') = []"
    using snoc.IH[OF 1(2,3)] by blast
  show ?case using 1 2 by simp
qed

text \<open>Claim C3.  Pushing \<open>v1..vn\<close> in order onto a fresh \<^verbatim>\<open>Stack\<close> and then popping
  \<open>n\<close> times raises nothing and yields \<open>vn, ..., v1\<close>, the reverse of the push
  order, leaving the stack empty.\<close>

theorem Stack_lifo:
  "\<exists>s s'. Stack_push_all Stack_init vs = Inr s \<and>
          Stack_pop_n s (length vs) = Inr (rev vs, s') \<and> Stack_is_empty s'"
proof -
  have i0: "al_inv (stack_items (Stack_init :: 'a Stack))"
    by (simp add: Stack_init_def ArrayList_new_def al_inv_init)
  have c0: "al_contents (stack_items (Stack_init :: 'a Stack)) = []"
    by (simp add: Stack_init_def ArrayList_new_def al_contents_init)
  obtain s where 1: "Stack_push_all Stack_init vs = Inr s" "al_inv (stack_items s)"
    "al_contents (stack_items s) = vs"
    using Stack_push_all_ok[OF i0, of vs] c0 by auto
  obtain s' where 2: "Stack_pop_n s (length vs) = Inr (rev vs, s')" "al_inv (stack_items s')"
    "al_contents (stack_items s') = []"
    using Stack_pop_n_ok[OF 1(2,3)] by blast
  have "Stack_is_empty s'"
    using al_size_contents[OF 2(2)] 2(3) by (simp add: Stack_is_empty_def ArrayList_size_def)
  then show ?thesis using 1(1) 2(1) by blast
qed

section \<open>LinkedList and Queue: first in, first out\<close>

lemma ll_inv_init: "ll_inv LinkedList_init []"
  by (simp add: ll_inv_def LinkedList_init_def)

lemma ll_path_upd_other:
  "ll_path st p as \<Longrightarrow> f \<notin> set as \<Longrightarrow> ll_path (st(f \<mapsto> n)) p as"
  by (induction as arbitrary: p) (auto split: option.splits)

lemma ll_values_upd_other:
  "f \<notin> set as \<Longrightarrow> ll_values (st(f \<mapsto> n)) as = ll_values st as"
  by (simp add: ll_values_def)

lemma ll_path_last_next:
  "ll_path st p as \<Longrightarrow> as \<noteq> [] \<Longrightarrow> \<exists>n. st (last as) = Some n \<and> node_next n = None"
  by (induction as arbitrary: p) (auto split: option.splits)

lemma ll_path_append:
  "ll_path st p as \<Longrightarrow> as \<noteq> [] \<Longrightarrow> distinct as \<Longrightarrow> f \<notin> set as \<Longrightarrow>
   st (last as) = Some tn \<Longrightarrow> node_next new = None \<Longrightarrow>
   ll_path (st(f \<mapsto> new, last as \<mapsto> tn\<lparr>node_next := Some f\<rparr>)) p (as @ [f])"
proof (induction as arbitrary: p)
  case Nil
  then show ?case by simp
next
  case (Cons a as)
  show ?case
  proof (cases "as = []")
    case True
    then show ?thesis using Cons.prems by (auto split: option.splits)
  next
    case False
    obtain n where n: "st a = Some n" "ll_path st (node_next n) as" and p: "p = Some a"
      using Cons.prems(1) by (auto split: option.splits)
    have la: "last (a # as) = last as" using False by simp
    have d: "distinct as" and fa: "f \<notin> set as" and af: "a \<noteq> f" and an: "a \<notin> set as"
      using Cons.prems(3,4) by auto
    have tn: "st (last as) = Some tn" using Cons.prems(5) la by simp
    have step: "ll_path (st(f \<mapsto> new, last as \<mapsto> tn\<lparr>node_next := Some f\<rparr>)) (node_next n) (as @ [f])"
      by (rule Cons.IH[OF n(2) False d fa tn Cons.prems(6)])
    have al: "a \<noteq> last as" using an last_in_set[OF False] by auto
    have "(st(f \<mapsto> new, last as \<mapsto> tn\<lparr>node_next := Some f\<rparr>)) a = Some n"
      using n(1) af al by simp
    then have whole: "ll_path (st(f \<mapsto> new, last as \<mapsto> tn\<lparr>node_next := Some f\<rparr>)) p (a # (as @ [f]))"
      using p step by (simp del: fun_upd_apply)
    show ?thesis unfolding la append_Cons by (rule whole)
  qed
qed

lemma ll_values_append:
  assumes "as \<noteq> []" "distinct as" "f \<notin> set as" "st (last as) = Some tn"
  shows "ll_values (st(f \<mapsto> new, last as \<mapsto> tn\<lparr>node_next := Some f\<rparr>)) (as @ [f])
           = ll_values st as @ [node_val new]"
proof -
  have "\<And>a. a \<in> set as \<Longrightarrow>
      (case (st(f \<mapsto> new, last as \<mapsto> tn\<lparr>node_next := Some f\<rparr>)) a of None \<Rightarrow> None | Some n \<Rightarrow> node_val n)
      = (case st a of None \<Rightarrow> None | Some n \<Rightarrow> node_val n)"
    using assms by auto
  moreover have "f \<noteq> last as" using assms(3) last_in_set[OF assms(1)] by auto
  ultimately show ?thesis by (simp add: ll_values_def)
qed

lemma LinkedList_add_last_ok:
  assumes "ll_inv l as"
  shows "\<exists>l'. LinkedList_add_last l v = Inr l' \<and> ll_inv l' (as @ [ll_fresh l]) \<and>
           ll_values (ll_store l') (as @ [ll_fresh l]) = ll_values (ll_store l) as @ [v]"
proof (cases "as = []")
  case True
  then have "ll_tail l = None" "ll_head l = None" "ll_size l = 0"
    using assms by (auto simp: ll_inv_def)
  then show ?thesis using True
    by (simp add: LinkedList_add_last_def Let_def ll_inv_def ll_values_def ListNode_init_def)
next
  case False
  let ?f = "ll_fresh l"
  let ?new = "ListNode_init v None"
  have p: "ll_path (ll_store l) (ll_head l) as" and d: "distinct as"
    and fr: "list_all (\<lambda>a. a < ?f) as" and sz: "ll_size l = int (length as)"
    and t: "ll_tail l = Some (last as)"
    using assms False by (auto simp: ll_inv_def)
  have nf: "?f \<notin> set as" using fr by (auto simp: list_all_iff)
  obtain tn where tn: "ll_store l (last as) = Some tn"
    using ll_path_last_next[OF p False] by blast
  have ne: "last as \<noteq> ?f" using nf last_in_set[OF False] by auto
  let ?st = "(ll_store l)(?f \<mapsto> ?new, last as \<mapsto> tn\<lparr>node_next := Some ?f\<rparr>)"
  let ?l' = "l\<lparr>ll_store := ?st, ll_fresh := Suc ?f, ll_tail := Some ?f, ll_size := ll_size l + 1\<rparr>"
  have r: "LinkedList_add_last l v = Inr ?l'"
    using t tn ne by (simp add: LinkedList_add_last_def Let_def)
  have p': "ll_path ?st (ll_head l) (as @ [?f])"
    by (rule ll_path_append[OF p False d nf tn]) (simp add: ListNode_init_def)
  have fr': "list_all (\<lambda>a. a < Suc ?f) (as @ [?f])"
    using fr by (auto simp: list_all_iff)
  have inv: "ll_inv ?l' (as @ [?f])"
    using p' d nf fr' sz by (simp add: ll_inv_def)
  have vals: "ll_values ?st (as @ [?f]) = ll_values (ll_store l) as @ [v]"
    using ll_values_append[where st = "ll_store l" and new = ?new, OF False d nf tn]
    by (simp add: ListNode_init_def)
  show ?thesis using r inv vals by simp
qed

lemma LinkedList_remove_first_empty:
  "ll_inv l [] \<Longrightarrow> LinkedList_remove_first l = Inr (None, l)"
  by (simp add: ll_inv_def LinkedList_remove_first_def)

lemma LinkedList_remove_first_ok:
  assumes "ll_inv l (a # as)"
  shows "\<exists>l'. LinkedList_remove_first l = Inr (hd (ll_values (ll_store l) (a # as)), l') \<and>
           ll_inv l' as \<and> ll_store l' = ll_store l"
proof -
  obtain n where h: "ll_head l = Some a" and n: "ll_store l a = Some n"
    and p: "ll_path (ll_store l) (node_next n) as"
    using assms by (auto simp: ll_inv_def split: option.splits)
  have hn: "node_next n = None \<longleftrightarrow> as = []"
    using p by (cases as) auto
  let ?l1 = "l\<lparr>ll_head := node_next n\<rparr>"
  let ?l2 = "if node_next n = None then ?l1\<lparr>ll_tail := None\<rparr> else ?l1"
  let ?l' = "?l2\<lparr>ll_size := ll_size ?l2 - 1\<rparr>"
  have r: "LinkedList_remove_first l = Inr (node_val n, ?l')"
    using h n by (simp add: LinkedList_remove_first_def Let_def)
  have inv: "ll_inv ?l' as"
    using assms p hn by (auto simp: ll_inv_def)
  have v: "hd (ll_values (ll_store l) (a # as)) = node_val n"
    using n by (simp add: ll_values_def)
  show ?thesis using r inv v by auto
qed

lemma ll_reachable_inv: "ll_reachable l \<Longrightarrow> \<exists>as. ll_inv l as"
proof (induction rule: ll_reachable.induct)
  case ll_reach_init
  show ?case using ll_inv_init by blast
next
  case (ll_reach_add_last l v l')
  then obtain as where "ll_inv l as" by blast
  then show ?case using LinkedList_add_last_ok[of l as v] ll_reach_add_last.hyps(2) by auto
next
  case (ll_reach_remove_first l r l')
  then obtain as where as: "ll_inv l as" by blast
  show ?case
  proof (cases as)
    case Nil
    then show ?thesis using as LinkedList_remove_first_empty[of l] ll_reach_remove_first.hyps(2)
      by auto
  next
    case (Cons a as')
    then show ?thesis using as LinkedList_remove_first_ok[of l a as'] ll_reach_remove_first.hyps(2)
      by auto
  qed
qed

text \<open>Claim C9.  In every state of a \<^verbatim>\<open>LinkedList\<close> reachable from the constructor by
  \<^verbatim>\<open>add_last\<close> and \<^verbatim>\<open>remove_first\<close>, the node that \<^verbatim>\<open>tail\<close> refers to (when there is
  one) has no \<^verbatim>\<open>next\<close>, and \<^verbatim>\<open>head\<close> is \<^verbatim>\<open>None\<close> if and only if \<^verbatim>\<open>size()\<close> is 0.\<close>

theorem LinkedList_invariant:
  assumes "ll_reachable l"
  shows "(case ll_tail l of
            None \<Rightarrow> True
          | Some t \<Rightarrow> (case ll_store l t of None \<Rightarrow> False | Some n \<Rightarrow> node_next n = None)) \<and>
         (ll_head l = None \<longleftrightarrow> LinkedList_size l = 0)"
proof -
  obtain as where inv: "ll_inv l as" using ll_reachable_inv[OF assms] by blast
  show ?thesis
  proof (cases "as = []")
    case True
    then show ?thesis using inv by (simp add: ll_inv_def LinkedList_size_def)
  next
    case False
    have p: "ll_path (ll_store l) (ll_head l) as" and t: "ll_tail l = Some (last as)"
      and sz: "ll_size l = int (length as)"
      using inv False by (auto simp: ll_inv_def)
    obtain n where "ll_store l (last as) = Some n" "node_next n = None"
      using ll_path_last_next[OF p False] by blast
    moreover have "ll_head l \<noteq> None" using p False by (cases as) auto
    ultimately show ?thesis using t sz False by (simp add: LinkedList_size_def)
  qed
qed


text \<open>The theorem at the list holding the single value 7, reached by one
  \<^verbatim>\<open>add_last\<close>.\<close>

theorem LinkedList_invariant_witness:
  "ll_reachable
     \<lparr>ll_store = [0 \<mapsto> \<lparr>node_val = Some (7::int), node_next = None\<rparr>], ll_fresh = 1,
      ll_head = Some 0, ll_tail = Some 0, ll_size = 1\<rparr> \<and>
   (case ll_store
       \<lparr>ll_store = [0 \<mapsto> \<lparr>node_val = Some (7::int), node_next = None\<rparr>], ll_fresh = 1,
        ll_head = Some 0, ll_tail = Some 0, ll_size = 1\<rparr> 0 of
      None \<Rightarrow> False
    | Some n \<Rightarrow> node_next n = None) \<and>
   LinkedList_size
     \<lparr>ll_store = [0 \<mapsto> \<lparr>node_val = Some (7::int), node_next = None\<rparr>], ll_fresh = 1,
      ll_head = Some 0, ll_tail = Some 0, ll_size = 1\<rparr> \<noteq> 0"
proof -
  let ?l = "\<lparr>ll_store = [0 \<mapsto> \<lparr>node_val = Some (7::int), node_next = None\<rparr>], ll_fresh = 1,
      ll_head = Some 0, ll_tail = Some 0, ll_size = 1\<rparr>"
  have add: "LinkedList_add_last LinkedList_init (Some (7::int)) = Inr ?l"
    by (simp add: LinkedList_add_last_def LinkedList_init_def ListNode_init_def Let_def)
  have r: "ll_reachable ?l"
    by (rule ll_reach_add_last[OF ll_reach_init add])
  show ?thesis
    using r LinkedList_invariant[OF r] by simp
qed

lemma Queue_enqueue_all_ok:
  "ll_inv (queue_items q) as \<Longrightarrow>
   \<exists>q' as'. Queue_enqueue_all q vs = Inr q' \<and> ll_inv (queue_items q') as' \<and>
     ll_values (ll_store (queue_items q')) as' = ll_values (ll_store (queue_items q)) as @ vs"
proof (induction vs arbitrary: q as)
  case Nil
  then show ?case by auto
next
  case (Cons v vs)
  obtain l1 where 1: "LinkedList_add_last (queue_items q) v = Inr l1"
    "ll_inv l1 (as @ [ll_fresh (queue_items q)])"
    "ll_values (ll_store l1) (as @ [ll_fresh (queue_items q)])
       = ll_values (ll_store (queue_items q)) as @ [v]"
    using LinkedList_add_last_ok[OF Cons.prems, of v] by blast
  let ?q1 = "q\<lparr>queue_items := l1\<rparr>"
  have e: "Queue_enqueue q v = Inr ?q1"
    using 1(1) by (simp add: Queue_enqueue_def)
  have i1: "ll_inv (queue_items ?q1) (as @ [ll_fresh (queue_items q)])"
    using 1(2) by simp
  obtain q' as' where 2: "Queue_enqueue_all ?q1 vs = Inr q'" "ll_inv (queue_items q') as'"
    "ll_values (ll_store (queue_items q')) as'
       = ll_values (ll_store (queue_items ?q1)) (as @ [ll_fresh (queue_items q)]) @ vs"
    using Cons.IH[OF i1] by blast
  show ?case using e 1(3) 2 by auto
qed

lemma Queue_dequeue_n_ok:
  "ll_inv (queue_items q) as \<Longrightarrow>
   \<exists>q'. Queue_dequeue_n q (length as) = Inr (ll_values (ll_store (queue_items q)) as, q') \<and>
     ll_inv (queue_items q') []"
proof (induction as arbitrary: q)
  case Nil
  then show ?case by (simp add: ll_values_def)
next
  case (Cons a as)
  obtain l1 where 1: "LinkedList_remove_first (queue_items q)
        = Inr (hd (ll_values (ll_store (queue_items q)) (a # as)), l1)"
    "ll_inv l1 as" "ll_store l1 = ll_store (queue_items q)"
    using LinkedList_remove_first_ok[OF Cons.prems] by blast
  let ?q1 = "q\<lparr>queue_items := l1\<rparr>"
  have d: "Queue_dequeue q = Inr (hd (ll_values (ll_store (queue_items q)) (a # as)), ?q1)"
    using 1(1) by (simp add: Queue_dequeue_def)
  have i1: "ll_inv (queue_items ?q1) as" using 1(2) by simp
  obtain q' where 2: "Queue_dequeue_n ?q1 (length as)
        = Inr (ll_values (ll_store (queue_items ?q1)) as, q')" "ll_inv (queue_items q') []"
    using Cons.IH[OF i1] by blast
  have "ll_values (ll_store (queue_items q)) (a # as)
      = hd (ll_values (ll_store (queue_items q)) (a # as)) # ll_values (ll_store (queue_items ?q1)) as"
    using 1(3) by (simp add: ll_values_def)
  then show ?case using d 2 by simp
qed

text \<open>Claim C4.  Enqueuing \<open>v1..vn\<close> in order onto a fresh \<^verbatim>\<open>Queue\<close> and then
  dequeuing \<open>n\<close> times raises nothing and yields \<open>v1, ..., vn\<close>, the same order,
  leaving the queue empty.\<close>

theorem Queue_fifo:
  "\<exists>q q'. Queue_enqueue_all Queue_init vs = Inr q \<and>
          Queue_dequeue_n q (length vs) = Inr (vs, q') \<and> Queue_is_empty q'"
proof -
  have i0: "ll_inv (queue_items (Queue_init :: 'a Queue)) []"
    by (simp add: Queue_init_def ll_inv_init)
  obtain q as where 1: "Queue_enqueue_all Queue_init vs = Inr q" "ll_inv (queue_items q) as"
    "ll_values (ll_store (queue_items q)) as = vs"
    using Queue_enqueue_all_ok[OF i0, of vs] by (auto simp: ll_values_def)
  have len: "length as = length vs"
    using 1(3) by (auto simp: ll_values_def)
  obtain q' where 2: "Queue_dequeue_n q (length as) = Inr (ll_values (ll_store (queue_items q)) as, q')"
    "ll_inv (queue_items q') []"
    using Queue_dequeue_n_ok[OF 1(2)] by blast
  have "Queue_is_empty q'"
    using 2(2) by (simp add: Queue_is_empty_def LinkedList_size_def ll_inv_def)
  then show ?thesis using 1(1,3) 2(1) len by auto
qed


section \<open>Empty containers\<close>

lemma ll_reachable_empty_head:
  assumes "ll_reachable l" "LinkedList_size l = 0"
  shows "ll_head l = None"
proof -
  obtain as where inv: "ll_inv l as" using ll_reachable_inv[OF assms(1)] by blast
  then have "as = []" using assms(2) by (simp add: ll_inv_def LinkedList_size_def)
  then show ?thesis using inv by (simp add: ll_inv_def)
qed

text \<open>Claim C7.  On an empty container the remove-type and peek-type operations
  return \<^verbatim>\<open>None\<close> and raise nothing: \<^verbatim>\<open>pop\<close> and \<^verbatim>\<open>peek\<close> of a \<^verbatim>\<open>Stack\<close>,
  \<^verbatim>\<open>dequeue\<close> of a \<^verbatim>\<open>Queue\<close>, \<^verbatim>\<open>pop\<close> and \<^verbatim>\<open>peek\<close> of a \<^verbatim>\<open>MinHeap\<close> and a
  \<^verbatim>\<open>MaxHeap\<close>, \<^verbatim>\<open>remove_last\<close> of an \<^verbatim>\<open>ArrayList\<close> and \<^verbatim>\<open>remove_first\<close> of a
  \<^verbatim>\<open>LinkedList\<close>.  Empty means that the size is 0; the linked containers are taken in
  a reachable state, as their emptiness test reads the size and their removal reads
  \<^verbatim>\<open>head\<close>.\<close>

theorem empty_container_sentinel:
  fixes s :: "'a Stack" and q :: "'b Queue" and h :: "'c::linorder MinHeap"
    and g :: "'d::linorder MaxHeap" and a :: "'e ArrayList" and l :: "'f LinkedList"
  shows
  "(Stack_is_empty s \<longrightarrow> (\<exists>s'. Stack_pop s = Inr (None, s')) \<and> Stack_peek s = Inr None) \<and>
   (ll_reachable (queue_items q) \<and> Queue_is_empty q \<longrightarrow> (\<exists>q'. Queue_dequeue q = Inr (None, q'))) \<and>
   (MinHeap_size h = 0 \<longrightarrow> (\<exists>h'. MinHeap_pop h = Inr (None, h')) \<and> MinHeap_peek h = Inr None) \<and>
   (MaxHeap_size g = 0 \<longrightarrow> (\<exists>g'. MaxHeap_pop g = Inr (None, g')) \<and> MaxHeap_peek g = Inr None) \<and>
   (ArrayList_size a = 0 \<longrightarrow> (\<exists>a'. ArrayList_remove_last a = Inr (None, a'))) \<and>
   (ll_reachable l \<and> LinkedList_size l = 0 \<longrightarrow> (\<exists>l'. LinkedList_remove_first l = Inr (None, l')))"
proof -
  have 1: "Stack_is_empty s \<longrightarrow> (\<exists>s'. Stack_pop s = Inr (None, s')) \<and> Stack_peek s = Inr None"
    by (simp add: Stack_is_empty_def Stack_pop_def Stack_peek_def ArrayList_size_def
        ArrayList_remove_last_def)
  have 2: "ll_reachable (queue_items q) \<and> Queue_is_empty q \<longrightarrow>
      (\<exists>q'. Queue_dequeue q = Inr (None, q'))"
    using ll_reachable_empty_head[of "queue_items q"]
    by (auto simp: Queue_is_empty_def Queue_dequeue_def LinkedList_remove_first_def)
  have 3: "MinHeap_size h = 0 \<longrightarrow> (\<exists>h'. MinHeap_pop h = Inr (None, h')) \<and> MinHeap_peek h = Inr None"
    by (simp add: MinHeap_size_def MinHeap_pop_def MinHeap_peek_def)
  have 4: "MaxHeap_size g = 0 \<longrightarrow> (\<exists>g'. MaxHeap_pop g = Inr (None, g')) \<and> MaxHeap_peek g = Inr None"
    by (simp add: MaxHeap_size_def MaxHeap_pop_def MaxHeap_peek_def)
  have 5: "ArrayList_size a = 0 \<longrightarrow> (\<exists>a'. ArrayList_remove_last a = Inr (None, a'))"
    by (simp add: ArrayList_size_def ArrayList_remove_last_def)
  have 6: "ll_reachable l \<and> LinkedList_size l = 0 \<longrightarrow>
      (\<exists>l'. LinkedList_remove_first l = Inr (None, l'))"
    using ll_reachable_empty_head[of l] by (auto simp: LinkedList_remove_first_def)
  show ?thesis using 1 2 3 4 5 6 by blast
qed

text \<open>The theorem at the freshly constructed containers.\<close>

theorem empty_container_sentinel_witness:
  "Stack_is_empty (Stack_init :: int Stack) \<and>
   (\<exists>s'. Stack_pop (Stack_init :: int Stack) = Inr (None, s')) \<and>
   Stack_peek (Stack_init :: int Stack) = Inr None \<and>
   ll_reachable (queue_items (Queue_init :: int Queue)) \<and> Queue_is_empty (Queue_init :: int Queue) \<and>
   (\<exists>q'. Queue_dequeue (Queue_init :: int Queue) = Inr (None, q')) \<and>
   MinHeap_size (MinHeap_init :: int MinHeap) = 0 \<and>
   (\<exists>h'. MinHeap_pop (MinHeap_init :: int MinHeap) = Inr (None, h')) \<and>
   MinHeap_peek (MinHeap_init :: int MinHeap) = Inr None \<and>
   MaxHeap_size (MaxHeap_init :: int MaxHeap) = 0 \<and>
   (\<exists>g'. MaxHeap_pop (MaxHeap_init :: int MaxHeap) = Inr (None, g')) \<and>
   MaxHeap_peek (MaxHeap_init :: int MaxHeap) = Inr None \<and>
   ArrayList_size (ArrayList_new :: int ArrayList) = 0 \<and>
   (\<exists>a'. ArrayList_remove_last (ArrayList_new :: int ArrayList) = Inr (None, a')) \<and>
   ll_reachable (LinkedList_init :: int LinkedList) \<and>
   LinkedList_size (LinkedList_init :: int LinkedList) = 0 \<and>
   (\<exists>l'. LinkedList_remove_first (LinkedList_init :: int LinkedList) = Inr (None, l'))"
proof -
  have a0: "ArrayList_size (ArrayList_new :: int ArrayList) = 0"
    by (simp add: ArrayList_size_def ArrayList_new_def ArrayList_init_def Let_def)
  have s0: "Stack_is_empty (Stack_init :: int Stack)"
    using a0 by (simp add: Stack_is_empty_def Stack_init_def)
  have l0: "ll_reachable (LinkedList_init :: int LinkedList)"
    by (rule ll_reach_init)
  have lz: "LinkedList_size (LinkedList_init :: int LinkedList) = 0"
    by (simp add: LinkedList_size_def LinkedList_init_def)
  have q0: "ll_reachable (queue_items (Queue_init :: int Queue))"
    "Queue_is_empty (Queue_init :: int Queue)"
    using l0 lz by (simp_all add: Queue_init_def Queue_is_empty_def)
  have h0: "MinHeap_size (MinHeap_init :: int MinHeap) = 0"
    using a0 by (simp add: MinHeap_size_def MinHeap_init_def)
  have g0: "MaxHeap_size (MaxHeap_init :: int MaxHeap) = 0"
    using a0 by (simp add: MaxHeap_size_def MaxHeap_init_def)
  show ?thesis
    using a0 s0 l0 lz q0 h0 g0
      empty_container_sentinel[of "Stack_init :: int Stack" "Queue_init :: int Queue"
        "MinHeap_init :: int MinHeap" "MaxHeap_init :: int MaxHeap"
        "ArrayList_new :: int ArrayList" "LinkedList_init :: int LinkedList"]
    by blast
qed

text \<open>Claim C10.  A remove-type operation on an empty container returns \<^verbatim>\<open>None\<close>
  and leaves the container in the very state it was in: \<^verbatim>\<open>remove_last\<close> of an
  \<^verbatim>\<open>ArrayList\<close>, \<^verbatim>\<open>remove_first\<close> of a (reachable) \<^verbatim>\<open>LinkedList\<close>, \<^verbatim>\<open>pop\<close> of a
  \<^verbatim>\<open>MinHeap\<close> and of a \<^verbatim>\<open>MaxHeap\<close>.  The state returned equals the state given, so
  every later operation behaves as if the call had not happened.\<close>

theorem remove_on_empty_unchanged:
  fixes a :: "'a ArrayList" and l :: "'b LinkedList" and h :: "'c::linorder MinHeap"
    and g :: "'d::linorder MaxHeap"
  shows
  "(ArrayList_size a = 0 \<longrightarrow> ArrayList_remove_last a = Inr (None, a)) \<and>
   (ll_reachable l \<and> LinkedList_size l = 0 \<longrightarrow> LinkedList_remove_first l = Inr (None, l)) \<and>
   (MinHeap_size h = 0 \<longrightarrow> MinHeap_pop h = Inr (None, h)) \<and>
   (MaxHeap_size g = 0 \<longrightarrow> MaxHeap_pop g = Inr (None, g))"
proof -
  have 1: "ArrayList_size a = 0 \<longrightarrow> ArrayList_remove_last a = Inr (None, a)"
    by (simp add: ArrayList_size_def ArrayList_remove_last_def)
  have 2: "ll_reachable l \<and> LinkedList_size l = 0 \<longrightarrow> LinkedList_remove_first l = Inr (None, l)"
    using ll_reachable_empty_head[of l] by (auto simp: LinkedList_remove_first_def)
  have 3: "MinHeap_size h = 0 \<longrightarrow> MinHeap_pop h = Inr (None, h)"
    by (simp add: MinHeap_size_def MinHeap_pop_def)
  have 4: "MaxHeap_size g = 0 \<longrightarrow> MaxHeap_pop g = Inr (None, g)"
    by (simp add: MaxHeap_size_def MaxHeap_pop_def)
  show ?thesis using 1 2 3 4 by blast
qed

text \<open>The theorem at freshly constructed containers.\<close>

theorem remove_on_empty_unchanged_witness:
  "ArrayList_size (ArrayList_init 2 :: int ArrayList) = 0 \<and>
   ArrayList_remove_last (ArrayList_init 2 :: int ArrayList) = Inr (None, ArrayList_init 2) \<and>
   ll_reachable (LinkedList_init :: int LinkedList) \<and>
   LinkedList_size (LinkedList_init :: int LinkedList) = 0 \<and>
   LinkedList_remove_first (LinkedList_init :: int LinkedList) = Inr (None, LinkedList_init) \<and>
   MinHeap_size (MinHeap_init :: int MinHeap) = 0 \<and>
   MinHeap_pop (MinHeap_init :: int MinHeap) = Inr (None, MinHeap_init) \<and>
   MaxHeap_size (MaxHeap_init :: int MaxHeap) = 0 \<and>
   MaxHeap_pop (MaxHeap_init :: int MaxHeap) = Inr (None, MaxHeap_init)"
proof -
  have a0: "ArrayList_size (ArrayList_init 2 :: int ArrayList) = 0"
    by (simp add: ArrayList_size_def ArrayList_init_def Let_def)
  have l0: "ll_reachable (LinkedList_init :: int LinkedList)"
    by (rule ll_reach_init)
  have lz: "LinkedList_size (LinkedList_init :: int LinkedList) = 0"
    by (simp add: LinkedList_size_def LinkedList_init_def)
  have h0: "MinHeap_size (MinHeap_init :: int MinHeap) = 0"
    by (simp add: MinHeap_size_def MinHeap_init_def ArrayList_size_def ArrayList_new_def
        ArrayList_init_def Let_def)
  have g0: "MaxHeap_size (MaxHeap_init :: int MaxHeap) = 0"
    by (simp add: MaxHeap_size_def MaxHeap_init_def ArrayList_size_def ArrayList_new_def
        ArrayList_init_def Let_def)
  show ?thesis
    using a0 l0 lz h0 g0
      remove_on_empty_unchanged[of "ArrayList_init 2 :: int ArrayList"
        "LinkedList_init :: int LinkedList" "MinHeap_init :: int MinHeap"
        "MaxHeap_init :: int MaxHeap"]
    by blast
qed

section \<open>Heap order on lists\<close>

lemma length_swap_list [simp]: "length (swap_list xs i j) = length xs"
  by (simp add: swap_list_def)

lemma mset_swap_list:
  "i < length xs \<Longrightarrow> j < length xs \<Longrightarrow> mset (swap_list xs i j) = mset xs"
  unfolding swap_list_def by (rule mset_swap)

lemma nth_swap_list:
  "i < length xs \<Longrightarrow> j < length xs \<Longrightarrow> k < length xs \<Longrightarrow>
   swap_list xs i j ! k = (if k = j then xs ! i else if k = i then xs ! j else xs ! k)"
  by (simp add: swap_list_def nth_list_update)

lemma parent_less: "0 < j \<Longrightarrow> (j - 1) div 2 < (j::nat)"
  by arith

lemma parent_eq_iff: "0 < j \<Longrightarrow> ((j - 1) div 2 = (i::nat)) = (j = i * 2 + 1 \<or> j = i * 2 + 2)"
  by arith

lemma up_inv_swap:
  assumes tp: "total_preorder le" and inv: "up_inv le xs i" and i0: "0 < i"
    and nle: "\<not> le (xs ! ((i - 1) div 2)) (xs ! i)"
  shows "up_inv le (swap_list xs ((i - 1) div 2) i) ((i - 1) div 2)"
proof -
  let ?p = "(i - 1) div 2"
  let ?ys = "swap_list xs ?p i"
  have tot: "\<And>x y. le x y \<or> le y x" and tr: "\<And>x y z. le x y \<Longrightarrow> le y z \<Longrightarrow> le x z"
    using tp unfolding total_preorder_def by blast+
  have il: "i < length xs" using inv by (simp add: up_inv_def)
  have pi: "?p < i" using i0 by (rule parent_less)
  have pl: "?p < length xs" using pi il by simp
  have A: "\<And>j. 0 < j \<Longrightarrow> j < length xs \<Longrightarrow> j \<noteq> i \<Longrightarrow> le (xs ! ((j - 1) div 2)) (xs ! j)"
    using inv by (simp add: up_inv_def)
  have B: "\<And>j. 0 < j \<Longrightarrow> j < length xs \<Longrightarrow> (j - 1) div 2 = i \<Longrightarrow> le (xs ! ?p) (xs ! j)"
    using inv i0 by (simp add: up_inv_def)
  have ip: "le (xs ! i) (xs ! ?p)" using tot nle by blast
  have nth: "\<And>k. k < length xs \<Longrightarrow>
      ?ys ! k = (if k = i then xs ! ?p else if k = ?p then xs ! i else xs ! k)"
    using nth_swap_list[OF pl il] by simp
  have 1: "le (?ys ! ((j - 1) div 2)) (?ys ! j)"
    if j: "0 < j" "j < length xs" "j \<noteq> ?p" for j
  proof -
    let ?q = "(j - 1) div 2"
    have qj: "?q < j" using j(1) by (rule parent_less)
    have ql: "?q < length xs" using qj j(2) by simp
    consider (a) "j = i" | (b) "j \<noteq> i" "?q = i" | (c) "j \<noteq> i" "?q = ?p" | (d) "j \<noteq> i" "?q \<noteq> i" "?q \<noteq> ?p"
      by blast
    then show ?thesis
    proof cases
      case a
      then show ?thesis using nth[OF il] nth[OF pl] ip pi by simp
    next
      case b
      have "?ys ! j = xs ! j" using nth[OF j(2)] b(1) j(3) by simp
      moreover have "?ys ! ?q = xs ! ?p" using nth[OF il] b(2) by simp
      ultimately show ?thesis using B[OF j(1,2) b(2)] by simp
    next
      case c
      have "?ys ! j = xs ! j" using nth[OF j(2)] c(1) j(3) by simp
      moreover have "?ys ! ?q = xs ! i" using nth[OF pl] c(2) pi by simp
      moreover have "le (xs ! ?p) (xs ! j)" using A[OF j(1,2) c(1)] c(2) by simp
      ultimately show ?thesis using tr[OF ip] by simp
    next
      case d
      have "?ys ! j = xs ! j" using nth[OF j(2)] d(1) j(3) by simp
      moreover have "?ys ! ?q = xs ! ?q" using nth[OF ql] d(2,3) by simp
      ultimately show ?thesis using A[OF j(1,2) d(1)] by simp
    qed
  qed
  have 2: "le (?ys ! ((?p - 1) div 2)) (?ys ! j)"
    if j: "0 < j" "j < length xs" "(j - 1) div 2 = ?p" "0 < ?p" for j
  proof -
    let ?g = "(?p - 1) div 2"
    have gp: "?g < ?p" using j(4) by (rule parent_less)
    have gl: "?g < length xs" using gp pl by simp
    have yg: "?ys ! ?g = xs ! ?g" using nth[OF gl] gp pi by simp
    have gpp: "le (xs ! ?g) (xs ! ?p)" using A[OF j(4) pl] pi by simp
    have jp: "j \<noteq> ?p" using parent_less[OF j(1)] j(3) by simp
    show ?thesis
    proof (cases "j = i")
      case True
      then show ?thesis using nth[OF il] yg gpp by simp
    next
      case False
      have "?ys ! j = xs ! j" using nth[OF j(2)] False jp by simp
      moreover have "le (xs ! ?p) (xs ! j)" using A[OF j(1,2) False] j(3) by simp
      ultimately show ?thesis using yg tr[OF gpp] by simp
    qed
  qed
  show ?thesis unfolding up_inv_def using pl 1 2 by simp
qed

lemma sift_up_list_length [simp]: "length (sift_up_list le xs i) = length xs"
proof (induction le xs i rule: sift_up_list.induct)
  case (1 le xs i)
  then show ?case by (subst sift_up_list.simps) (simp add: Let_def)
qed

lemma sift_up_list_mset: "i < length xs \<Longrightarrow> mset (sift_up_list le xs i) = mset xs"
proof (induction le xs i rule: sift_up_list.induct)
  case (1 le xs i)
  show ?case
  proof (cases "0 < i \<and> \<not> le (xs ! ((i - 1) div 2)) (xs ! i)")
    case True
    then have "0 < i" by simp
    then have pi: "(i - 1) div 2 < i" by (rule parent_less)
    then have pl: "(i - 1) div 2 < length xs" using "1.prems" by simp
    have "mset (sift_up_list le (swap_list xs ((i - 1) div 2) i) ((i - 1) div 2))
        = mset (swap_list xs ((i - 1) div 2) i)"
      using "1.IH"[OF _ refl] True pl by simp
    then show ?thesis
      using True mset_swap_list[OF pl "1.prems"]
      by (subst sift_up_list.simps) (simp add: Let_def)
  next
    case False
    then show ?thesis by (subst sift_up_list.simps) (auto simp: Let_def)
  qed
qed

lemma sift_up_list_heap:
  "total_preorder le \<Longrightarrow> up_inv le xs i \<Longrightarrow> heap_ok le (sift_up_list le xs i)"
proof (induction le xs i rule: sift_up_list.induct)
  case (1 le xs i)
  show ?case
  proof (cases "0 < i")
    case False
    then have "heap_ok le xs" using "1.prems"(2) by (auto simp: up_inv_def heap_ok_def)
    then show ?thesis using False by (subst sift_up_list.simps) simp
  next
    case True
    show ?thesis
    proof (cases "le (xs ! ((i - 1) div 2)) (xs ! i)")
      case le: True
      have "heap_ok le xs"
        unfolding heap_ok_def
      proof (intro allI impI)
        fix j assume "0 < j \<and> j < length xs"
        then show "le (xs ! ((j - 1) div 2)) (xs ! j)"
          using "1.prems"(2) le by (cases "j = i") (auto simp: up_inv_def)
      qed
      then show ?thesis using True le by (subst sift_up_list.simps) (simp add: Let_def)
    next
      case nle: False
      have "up_inv le (swap_list xs ((i - 1) div 2) i) ((i - 1) div 2)"
        by (rule up_inv_swap[OF "1.prems" True nle])
      then have "heap_ok le (sift_up_list le (swap_list xs ((i - 1) div 2) i) ((i - 1) div 2))"
        using "1.IH"[OF True refl nle "1.prems"(1)] by simp
      then show ?thesis using True nle by (subst sift_up_list.simps) (simp add: Let_def)
    qed
  qed
qed


lemma sift_down_list_unfold:
  "sift_down_list le xs i =
     (if down_choice le xs i = i then xs
      else sift_down_list le (swap_list xs i (down_choice le xs i)) (down_choice le xs i))"
  by (subst sift_down_list.simps) (simp add: down_choice_def Let_def)

lemma down_choice_same:
  assumes "down_choice le xs i = i"
  shows "(i * 2 + 1 < length xs \<longrightarrow> le (xs ! i) (xs ! (i * 2 + 1))) \<and>
         (i * 2 + 2 < length xs \<longrightarrow> le (xs ! i) (xs ! (i * 2 + 2)))"
  using assms by (auto simp: down_choice_def Let_def split: if_splits)

lemma down_choice_other:
  assumes tp: "total_preorder le" and ne: "down_choice le xs i \<noteq> i"
  shows "(down_choice le xs i = i * 2 + 1 \<or> down_choice le xs i = i * 2 + 2) \<and>
         down_choice le xs i < length xs \<and>
         le (xs ! down_choice le xs i) (xs ! i) \<and>
         (i * 2 + 1 < length xs \<longrightarrow> le (xs ! down_choice le xs i) (xs ! (i * 2 + 1))) \<and>
         (i * 2 + 2 < length xs \<longrightarrow> le (xs ! down_choice le xs i) (xs ! (i * 2 + 2)))"
proof -
  have tot: "\<And>x y. le x y \<or> le y x" and tr: "\<And>x y z. le x y \<Longrightarrow> le y z \<Longrightarrow> le x z"
    using tp unfolding total_preorder_def by blast+
  have rf: "\<And>x. le x x" using tot by blast
  define l where "l = i * 2 + 1"
  define r where "r = i * 2 + 2"
  define s1 where "s1 = (if l < length xs \<and> \<not> le (xs ! i) (xs ! l) then l else i)"
  define s where "s = down_choice le xs i"
  have dc: "s = (if r < length xs \<and> \<not> le (xs ! s1) (xs ! r) then r else s1)"
    unfolding s_def down_choice_def Let_def s1_def l_def r_def ..
  have lr: "l < r" by (simp add: l_def r_def)
  have si: "s \<noteq> i" using ne by (simp add: s_def)
  have "(s = l \<or> s = r) \<and> s < length xs \<and> le (xs ! s) (xs ! i) \<and>
         (l < length xs \<longrightarrow> le (xs ! s) (xs ! l)) \<and>
         (r < length xs \<longrightarrow> le (xs ! s) (xs ! r))"
  proof (cases "r < length xs \<and> \<not> le (xs ! s1) (xs ! r)")
    case R: True
    then have d: "s = r" using dc by simp
    have rs1: "le (xs ! r) (xs ! s1)" using R tot by blast
    have ll: "l < length xs" using R lr by simp
    show ?thesis
    proof (cases "\<not> le (xs ! i) (xs ! l)")
      case L: True
      then have s1: "s1 = l" using ll by (simp add: s1_def)
      have li: "le (xs ! l) (xs ! i)" using L tot by blast
      have rl: "le (xs ! r) (xs ! l)" using rs1 s1 by simp
      have ri: "le (xs ! r) (xs ! i)" using tr[OF rl li] .
      show ?thesis unfolding d using R rl ri rf by simp
    next
      case L: False
      then have s1: "s1 = i" by (simp add: s1_def)
      have ri: "le (xs ! r) (xs ! i)" using rs1 s1 by simp
      have "le (xs ! i) (xs ! l)" using L by simp
      then have rl: "le (xs ! r) (xs ! l)" using tr[OF ri] by simp
      show ?thesis unfolding d using R rl ri rf by simp
    qed
  next
    case R: False
    then have "(if r < length xs \<and> \<not> le (xs ! s1) (xs ! r) then r else s1) = s1"
      by (rule if_not_P)
    then have d1: "s = s1" using dc by simp
    then have L: "l < length xs \<and> \<not> le (xs ! i) (xs ! l)"
      using si unfolding s1_def by (simp split: if_splits)
    then have s1: "s1 = l" by (simp add: s1_def)
    have d: "s = l" using d1 s1 by simp
    have li: "le (xs ! l) (xs ! i)" using L tot by blast
    have "r < length xs \<longrightarrow> le (xs ! l) (xs ! r)" using R s1 by simp
    then show ?thesis unfolding d using L li rf by simp
  qed
  then show ?thesis unfolding s_def l_def r_def .
qed

lemma down_inv_same:
  assumes inv: "down_inv le xs i" and same: "down_choice le xs i = i"
  shows "heap_ok le xs"
  unfolding heap_ok_def
proof (intro allI impI)
  fix j assume j: "0 < j \<and> j < length xs"
  show "le (xs ! ((j - 1) div 2)) (xs ! j)"
  proof (cases "(j - 1) div 2 = i")
    case False
    then show ?thesis using inv j by (simp add: down_inv_def)
  next
    case True
    then have "j = i * 2 + 1 \<or> j = i * 2 + 2" using j parent_eq_iff[of j i] by simp
    then show ?thesis using down_choice_same[OF same] j True by auto
  qed
qed

lemma down_inv_swap:
  assumes tp: "total_preorder le" and inv: "down_inv le xs i"
    and ne: "down_choice le xs i \<noteq> i"
  shows "down_inv le (swap_list xs i (down_choice le xs i)) (down_choice le xs i)"
proof -
  let ?s = "down_choice le xs i"
  let ?ys = "swap_list xs i ?s"
  have tr: "\<And>x y z. le x y \<Longrightarrow> le y z \<Longrightarrow> le x z"
    using tp unfolding total_preorder_def by blast
  have ch: "?s = i * 2 + 1 \<or> ?s = i * 2 + 2" and sl: "?s < length xs"
    and si: "le (xs ! ?s) (xs ! i)"
    and sc1: "i * 2 + 1 < length xs \<Longrightarrow> le (xs ! ?s) (xs ! (i * 2 + 1))"
    and sc2: "i * 2 + 2 < length xs \<Longrightarrow> le (xs ! ?s) (xs ! (i * 2 + 2))"
    using down_choice_other[OF tp ne] by blast+
  have i_lt: "i < ?s" using ch by arith
  have il: "i < length xs" using i_lt sl by simp
  have s0: "0 < ?s" using i_lt by simp
  have ps: "(?s - 1) div 2 = i" using ch parent_eq_iff[OF s0, of i] by simp
  have A: "\<And>j. 0 < j \<Longrightarrow> j < length xs \<Longrightarrow> (j - 1) div 2 \<noteq> i \<Longrightarrow> le (xs ! ((j - 1) div 2)) (xs ! j)"
    using inv by (simp add: down_inv_def)
  have B: "\<And>j. 0 < j \<Longrightarrow> j < length xs \<Longrightarrow> (j - 1) div 2 = i \<Longrightarrow> 0 < i \<Longrightarrow>
      le (xs ! ((i - 1) div 2)) (xs ! j)"
    using inv by (simp add: down_inv_def)
  have nth: "\<And>k. k < length xs \<Longrightarrow>
      ?ys ! k = (if k = ?s then xs ! i else if k = i then xs ! ?s else xs ! k)"
    using nth_swap_list[OF il sl] by simp
  have 1: "le (?ys ! ((j - 1) div 2)) (?ys ! j)"
    if j: "0 < j" "j < length xs" "(j - 1) div 2 \<noteq> ?s" for j
  proof -
    let ?q = "(j - 1) div 2"
    have qj: "?q < j" using j(1) by (rule parent_less)
    have ql: "?q < length xs" using qj j(2) by simp
    show ?thesis
    proof (cases "?q = i")
      case True
      have yq: "?ys ! ?q = xs ! ?s" using nth[OF il] True i_lt by simp
      have jc: "j = i * 2 + 1 \<or> j = i * 2 + 2" using parent_eq_iff[OF j(1), of i] True by simp
      have ji: "j \<noteq> i" using qj True by simp
      show ?thesis
      proof (cases "j = ?s")
        case True
        then show ?thesis using nth[OF sl] yq si by simp
      next
        case False
        have "?ys ! j = xs ! j" using nth[OF j(2)] False ji by simp
        moreover have "le (xs ! ?s) (xs ! j)" using jc sc1 sc2 j(2) by auto
        ultimately show ?thesis using yq by simp
      qed
    next
      case False
      have yq: "?ys ! ?q = xs ! ?q" using nth[OF ql] False j(3) by simp
      have js: "j \<noteq> ?s" using ps False by auto
      show ?thesis
      proof (cases "j = i")
        case True
        have "?ys ! j = xs ! ?s" using nth[OF il] True i_lt by simp
        moreover have "le (xs ! ((i - 1) div 2)) (xs ! ?s)"
          using B[OF s0 sl ps] j(1) True by simp
        ultimately show ?thesis using yq True by simp
      next
        case ji: False
        have "?ys ! j = xs ! j" using nth[OF j(2)] js ji by simp
        then show ?thesis using yq A[OF j(1,2) False] by simp
      qed
    qed
  qed
  have 2: "le (?ys ! ((?s - 1) div 2)) (?ys ! j)"
    if j: "0 < j" "j < length xs" "(j - 1) div 2 = ?s" for j
  proof -
    have sj: "?s < j" using parent_less[OF j(1)] j(3) by simp
    have "?ys ! j = xs ! j" using nth[OF j(2)] sj i_lt by simp
    moreover have "?ys ! ((?s - 1) div 2) = xs ! ?s" using nth[OF il] ps i_lt by simp
    moreover have "le (xs ! ?s) (xs ! j)" using A[OF j(1,2)] j(3) i_lt by simp
    ultimately show ?thesis by simp
  qed
  show ?thesis unfolding down_inv_def using 1 2 by simp
qed

lemma down_choice_range:
  "down_choice le xs i \<noteq> i \<Longrightarrow> i < down_choice le xs i \<and> down_choice le xs i < length xs"
  by (auto simp: down_choice_def Let_def split: if_splits)

lemma sift_down_list_induct:
  assumes step: "\<And>xs i. (down_choice le xs i \<noteq> i \<Longrightarrow>
      P (swap_list xs i (down_choice le xs i)) (down_choice le xs i)) \<Longrightarrow> P xs i"
  shows "P xs i"
proof (induction "length xs - i" arbitrary: xs i rule: less_induct)
  case less
  show ?case
  proof (rule step)
    assume ne: "down_choice le xs i \<noteq> i"
    have "length (swap_list xs i (down_choice le xs i)) - down_choice le xs i < length xs - i"
      using down_choice_range[OF ne] unfolding length_swap_list by linarith
    then show "P (swap_list xs i (down_choice le xs i)) (down_choice le xs i)"
      by (rule less.hyps)
  qed
qed

lemma sift_down_list_length [simp]: "length (sift_down_list le xs i) = length xs"
proof (induction xs i rule: sift_down_list_induct[where le = le])
  case (1 xs i)
  then show ?case by (subst sift_down_list_unfold) simp
qed

lemma sift_down_list_mset:
  "total_preorder le \<Longrightarrow> i < length xs \<Longrightarrow> mset (sift_down_list le xs i) = mset xs"
proof (induction xs i rule: sift_down_list_induct[where le = le])
  case (1 xs i)
  show ?case
  proof (cases "down_choice le xs i = i")
    case True
    then show ?thesis by (subst sift_down_list_unfold) simp
  next
    case False
    have sl: "down_choice le xs i < length xs"
      using down_choice_other[OF "1.prems"(1) False] by blast
    have "mset (sift_down_list le (swap_list xs i (down_choice le xs i)) (down_choice le xs i))
        = mset (swap_list xs i (down_choice le xs i))"
      using "1.IH"[OF False "1.prems"(1)] sl by simp
    then show ?thesis
      using False mset_swap_list[OF "1.prems"(2) sl]
      by (subst sift_down_list_unfold) simp
  qed
qed

lemma sift_down_list_heap:
  "total_preorder le \<Longrightarrow> down_inv le xs i \<Longrightarrow> heap_ok le (sift_down_list le xs i)"
proof (induction xs i rule: sift_down_list_induct[where le = le])
  case (1 xs i)
  show ?case
  proof (cases "down_choice le xs i = i")
    case True
    then show ?thesis using down_inv_same[OF "1.prems"(2) True]
      by (subst sift_down_list_unfold) simp
  next
    case False
    have "down_inv le (swap_list xs i (down_choice le xs i)) (down_choice le xs i)"
      by (rule down_inv_swap[OF "1.prems" False])
    then have "heap_ok le (sift_down_list le (swap_list xs i (down_choice le xs i)) (down_choice le xs i))"
      using "1.IH"[OF False "1.prems"(1)] by simp
    then show ?thesis using False by (subst sift_down_list_unfold) simp
  qed
qed

lemma heap_ok_root:
  assumes tp: "total_preorder le" and h: "heap_ok le xs"
  shows "i < length xs \<Longrightarrow> le (xs ! 0) (xs ! i)"
proof (induction i rule: less_induct)
  case (less i)
  have tot: "\<And>x y. le x y \<or> le y x" and tr: "\<And>x y z. le x y \<Longrightarrow> le y z \<Longrightarrow> le x z"
    using tp unfolding total_preorder_def by blast+
  show ?case
  proof (cases "i = 0")
    case True
    then show ?thesis using tot by blast
  next
    case False
    then have i0: "0 < i" by simp
    have pi: "(i - 1) div 2 < i" using i0 by (rule parent_less)
    have "le (xs ! 0) (xs ! ((i - 1) div 2))"
      using less.IH[OF pi] pi less.prems by simp
    moreover have "le (xs ! ((i - 1) div 2)) (xs ! i)"
      using h i0 less.prems by (simp add: heap_ok_def)
    ultimately show ?thesis by (rule tr)
  qed
qed

lemma heap_ok_root_set:
  assumes "total_preorder le" "heap_ok le xs" "x \<in> set xs"
  shows "le (xs ! 0) x"
  using assms heap_ok_root[of le xs] by (auto simp: in_set_conv_nth)

lemma push_list_length [simp]: "length (push_list le xs v) = Suc (length xs)"
  by (simp add: push_list_def)

lemma push_list_mset: "mset (push_list le xs v) = mset xs + {#v#}"
  by (simp add: push_list_def sift_up_list_mset)

lemma push_list_heap:
  assumes tp: "total_preorder le" and h: "heap_ok le xs"
  shows "heap_ok le (push_list le xs v)"
proof -
  have "up_inv le (xs @ [v]) (length xs)"
    unfolding up_inv_def
  proof (intro conjI allI impI)
    show "length xs < length (xs @ [v])" by simp
  next
    fix j assume j: "0 < j \<and> j < length (xs @ [v]) \<and> j \<noteq> length xs"
    then have jl: "j < length xs" by simp
    have j0: "0 < j" using j by simp
    have "(j - 1) div 2 < j" using j0 by (rule parent_less)
    then have pl: "(j - 1) div 2 < length xs" using jl by simp
    show "le ((xs @ [v]) ! ((j - 1) div 2)) ((xs @ [v]) ! j)"
      using h j jl pl by (simp add: heap_ok_def nth_append)
  next
    fix j assume j: "0 < j \<and> j < length (xs @ [v]) \<and> (j - 1) div 2 = length xs \<and> 0 < length xs"
    then have j0: "0 < j" by simp
    have "(j - 1) div 2 < j" using j0 by (rule parent_less)
    then have False using j by simp
    then show "le ((xs @ [v]) ! ((length xs - 1) div 2)) ((xs @ [v]) ! j)" ..
  qed
  then show ?thesis unfolding push_list_def by (rule sift_up_list_heap[OF tp])
qed

lemma pop_list_mset:
  assumes tp: "total_preorder le" and ne: "xs \<noteq> []"
  shows "mset (pop_list le xs) + {#xs ! 0#} = mset xs"
proof (cases "length xs \<le> 1")
  case True
  then obtain x where "xs = [x]" using ne by (cases xs) auto
  then show ?thesis by (simp add: pop_list_def)
next
  case False
  then have bl: "0 < length (butlast xs)" by simp
  let ?B = "mset (butlast xs)"
  have b0: "butlast xs ! 0 = xs ! 0" using bl by (simp add: nth_butlast)
  have mem: "xs ! 0 \<in># ?B" using bl b0 nth_mem[OF bl] by simp
  have split: "?B = add_mset (xs ! 0) (?B - {#xs ! 0#})"
    using mem by simp
  have "mset (pop_list le xs) = mset ((butlast xs)[0 := last xs])"
    using False bl by (simp add: pop_list_def sift_down_list_mset[OF tp])
  also have "\<dots> = add_mset (last xs) (?B - {#xs ! 0#})"
    using bl b0 by (simp add: mset_update)
  finally have 1: "mset (pop_list le xs) + {#xs ! 0#}
      = add_mset (last xs) (add_mset (xs ! 0) (?B - {#xs ! 0#}))" by simp
  have "mset xs = mset (butlast xs @ [last xs])" using ne by simp
  then have 2: "mset xs = add_mset (last xs) ?B" by simp
  show ?thesis using 1 2 split by simp
qed

lemma pop_list_length: "xs \<noteq> [] \<Longrightarrow> length (pop_list le xs) = length xs - 1"
  by (simp add: pop_list_def)

lemma pop_list_heap:
  assumes tp: "total_preorder le" and h: "heap_ok le xs"
  shows "heap_ok le (pop_list le xs)"
proof (cases "length xs \<le> 1")
  case True
  then show ?thesis by (simp add: pop_list_def heap_ok_def)
next
  case False
  let ?ys = "(butlast xs)[0 := last xs]"
  have "down_inv le ?ys 0"
    unfolding down_inv_def
  proof (intro conjI allI impI)
    fix j assume j: "0 < j \<and> j < length ?ys \<and> (j - 1) div 2 \<noteq> 0"
    then have jl: "j < length xs - 1" by simp
    have j0: "0 < j" using j by simp
    have "(j - 1) div 2 < j" using j0 by (rule parent_less)
    then have pl: "(j - 1) div 2 < length xs - 1" using jl by simp
    have jx: "j < length xs" using jl by simp
    have "le (xs ! ((j - 1) div 2)) (xs ! j)"
      using h j0 jx unfolding heap_ok_def by blast
    then show "le (?ys ! ((j - 1) div 2)) (?ys ! j)"
      using j jl pl by (simp add: nth_butlast)
  next
    fix j assume "0 < j \<and> j < length ?ys \<and> (j - 1) div 2 = 0 \<and> (0::nat) < 0"
    then show "le (?ys ! ((0 - 1) div 2)) (?ys ! j)" by simp
  qed
  then have "heap_ok le (sift_down_list le ?ys 0)" by (rule sift_down_list_heap[OF tp])
  then show ?thesis using False by (simp add: pop_list_def)
qed

section \<open>The heaps compute the list-level functions\<close>

lemma al_holds_size: "al_holds a xs \<Longrightarrow> al_size a = int (length xs)"
  using al_size_contents[of a] by (simp add: al_holds_def)

lemma al_holds_get:
  assumes "al_holds a xs" "k < length xs"
  shows "ArrayList_get a (int k) = Inr (Some (xs ! k))"
proof -
  have "ArrayList_get a (int k) = Inr (al_contents a ! nat (int k))"
    using assms al_holds_size[OF assms(1)] by (intro al_get_ok) (simp_all add: al_holds_def)
  then show ?thesis using assms by (simp add: al_holds_def)
qed

lemma al_holds_set:
  assumes "al_holds a xs" "k < length xs"
  shows "\<exists>a'. ArrayList_set a (int k) (Some v) = Inr a' \<and> al_holds a' (xs[k := v])"
proof -
  let ?a' = "a\<lparr>al_data := (al_data a)[nat (int k) := Some v]\<rparr>"
  have "ArrayList_set a (int k) (Some v) = Inr ?a'"
    using assms al_holds_size[OF assms(1)] by (intro al_set_eq) (simp_all add: al_holds_def)
  moreover have "al_holds ?a' (xs[k := v])"
    using assms(1) unfolding al_holds_def
    by (simp add: al_set_inv al_set_contents map_update)
  ultimately show ?thesis by blast
qed

lemma MinHeap_swap_ok:
  assumes "al_holds (mh_data h) xs" "i < length xs" "j < length xs"
  shows "\<exists>h'. MinHeap_swap h (int i) (int j) = Inr h' \<and> al_holds (mh_data h') (swap_list xs i j)"
proof -
  have gi: "ArrayList_get (mh_data h) (int i) = Inr (Some (xs ! i))"
    and gj: "ArrayList_get (mh_data h) (int j) = Inr (Some (xs ! j))"
    using assms by (simp_all add: al_holds_get)
  obtain d1 where s1: "ArrayList_set (mh_data h) (int i) (Some (xs ! j)) = Inr d1"
    and h1: "al_holds d1 (xs[i := xs ! j])"
    using al_holds_set[OF assms(1,2)] by blast
  have "j < length (xs[i := xs ! j])" using assms(3) by simp
  then obtain d2 where s2: "ArrayList_set d1 (int j) (Some (xs ! i)) = Inr d2"
    and h2: "al_holds d2 (xs[i := xs ! j, j := xs ! i])"
    using al_holds_set[OF h1] by blast
  show ?thesis using gi gj s1 s2 h2 by (simp add: MinHeap_swap_def swap_list_def)
qed

lemma int_parent: "0 < i \<Longrightarrow> (int i - 1) div 2 = int ((i - 1) div 2)"
  by (simp add: of_nat_diff zdiv_int)

lemma MinHeap_sift_up_ok:
  "al_holds (mh_data h) xs \<Longrightarrow> i < length xs \<Longrightarrow>
   \<exists>h'. MinHeap_sift_up h (int i) = Inr h' \<and> al_holds (mh_data h') (sift_up_list (\<le>) xs i)"
proof (induction i arbitrary: h xs rule: less_induct)
  case (less i)
  show ?case
  proof (cases "0 < i")
    case False
    then show ?thesis using less.prems
      by (subst MinHeap_sift_up.simps, subst sift_up_list.simps) simp
  next
    case True
    let ?p = "(i - 1) div 2"
    have pi: "?p < i" using True by (rule parent_less)
    have pl: "?p < length xs" using pi less.prems(2) by simp
    have ip: "(int i - 1) div 2 = int ?p" using True by (rule int_parent)
    have gp: "ArrayList_get (mh_data h) (int ?p) = Inr (Some (xs ! ?p))"
      using less.prems(1) pl by (rule al_holds_get)
    have gi: "ArrayList_get (mh_data h) (int i) = Inr (Some (xs ! i))"
      using less.prems by (rule al_holds_get)
    show ?thesis
    proof (cases "xs ! ?p \<le> xs ! i")
      case le: True
      have "MinHeap_sift_up h (int i) = Inr h"
        using True le by (subst MinHeap_sift_up.simps) (simp del: One_nat_def add: Let_def ip gp gi py_le_def)
      moreover have "sift_up_list (\<le>) xs i = xs"
        using True le by (subst sift_up_list.simps) (simp del: One_nat_def add: Let_def)
      ultimately show ?thesis using less.prems(1) by simp
    next
      case nle: False
      obtain h1 where sw: "MinHeap_swap h (int ?p) (int i) = Inr h1"
        and h1: "al_holds (mh_data h1) (swap_list xs ?p i)"
        using MinHeap_swap_ok[OF less.prems(1) pl less.prems(2)] by blast
      have "?p < length (swap_list xs ?p i)" using pl by simp
      then obtain h' where r: "MinHeap_sift_up h1 (int ?p) = Inr h'"
        and h': "al_holds (mh_data h') (sift_up_list (\<le>) (swap_list xs ?p i) ?p)"
        using less.IH[OF pi h1] by blast
      have "MinHeap_sift_up h (int i) = Inr h'"
        using True nle by (subst MinHeap_sift_up.simps) (simp del: One_nat_def add: Let_def ip gp gi py_le_def sw r)
      moreover have "sift_up_list (\<le>) xs i = sift_up_list (\<le>) (swap_list xs ?p i) ?p"
        using True nle by (subst sift_up_list.simps) (simp del: One_nat_def add: Let_def)
      ultimately show ?thesis using h' by simp
    qed
  qed
qed


lemma MinHeap_sift_down_loop_unfold:
  assumes hd: "al_holds (mh_data h) xs" and il: "i < length xs"
  shows "MinHeap_sift_down_loop h (int (length xs)) (int i) =
     (if down_choice (\<le>) xs i = i then Inr h
      else (case MinHeap_swap h (int i) (int (down_choice (\<le>) xs i)) of
              Inl e \<Rightarrow> Inl e
            | Inr h' \<Rightarrow> MinHeap_sift_down_loop h' (int (length xs)) (int (down_choice (\<le>) xs i))))"
proof -
  define n where "n = length xs"
  define l where "l = i * 2 + 1"
  define r where "r = i * 2 + 2"
  define b1 where "b1 \<longleftrightarrow> l < n \<and> xs ! l < xs ! i"
  define s1 where "s1 = (if b1 then l else i)"
  define b2 where "b2 \<longleftrightarrow> r < n \<and> xs ! r < xs ! s1"
  define s2 where "s2 = (if b2 then r else s1)"
  have L: "int i * 2 + 1 = int l" and R: "int i * 2 + 2 = int r"
    by (simp_all add: l_def r_def)
  have G: "\<And>k. k < n \<Longrightarrow> ArrayList_get (mh_data h) (int k) = Inr (Some (xs ! k))"
    using al_holds_get[OF hd] by (simp add: n_def)
  have in': "i < n" using il by (simp add: n_def)
  have c1: "(if int l < int n then
                 (case ArrayList_get (mh_data h) (int l) of
                    Inl e \<Rightarrow> Inl e
                  | Inr lv \<Rightarrow>
                      (case ArrayList_get (mh_data h) (int i) of
                         Inl e \<Rightarrow> Inl e
                       | Inr s \<Rightarrow> py_lt lv s))
               else Inr False) = Inr b1"
    by (cases "l < n") (simp_all add: G in' py_lt_def b1_def)
  have m1: "(if b1 then int l else int i) = int s1"
    by (simp add: s1_def)
  have s1n: "s1 < n" using in' by (simp add: s1_def b1_def)
  have c2: "(if int r < int n then
                 (case ArrayList_get (mh_data h) (int r) of
                    Inl e \<Rightarrow> Inl e
                  | Inr rv \<Rightarrow>
                      (case ArrayList_get (mh_data h) (int s1) of
                         Inl e \<Rightarrow> Inl e
                       | Inr s \<Rightarrow> py_lt rv s))
               else Inr False) = Inr b2"
    by (cases "r < n") (simp_all add: G s1n py_lt_def b2_def)
  have m2: "(if b2 then int r else int s1) = int s2"
    by (simp add: s2_def)
  have dc: "down_choice (\<le>) xs i = s2"
    unfolding down_choice_def Let_def s2_def b2_def s1_def b1_def l_def r_def n_def not_le ..
  have "MinHeap_sift_down_loop h (int n) (int i) =
     (if int s2 = int i then Inr h
      else (case MinHeap_swap h (int i) (int s2) of
              Inl e \<Rightarrow> Inl e
            | Inr h' \<Rightarrow> MinHeap_sift_down_loop h' (int n) (int s2)))"
    by (subst MinHeap_sift_down_loop.simps)
       (simp only: Let_def L R c1 sum.case m1 c2 m2)
  then show ?thesis unfolding dc n_def by simp
qed

lemma MinHeap_sift_down_loop_ok:
  "al_holds (mh_data h) xs \<Longrightarrow> i < length xs \<Longrightarrow>
   \<exists>h'. MinHeap_sift_down_loop h (int (length xs)) (int i) = Inr h' \<and>
        al_holds (mh_data h') (sift_down_list (\<le>) xs i)"
proof (induction xs i arbitrary: h rule: sift_down_list_induct[where le = "(\<le>)"])
  case (1 xs i)
  show ?case
  proof (cases "down_choice (\<le>) xs i = i")
    case True
    have "MinHeap_sift_down_loop h (int (length xs)) (int i) = Inr h"
      using MinHeap_sift_down_loop_unfold[OF "1.prems"] True by simp
    moreover have "sift_down_list (\<le>) xs i = xs"
      using True by (subst sift_down_list_unfold) simp
    ultimately show ?thesis using "1.prems"(1) by simp
  next
    case False
    let ?s = "down_choice (\<le>) xs i"
    have sl: "?s < length xs" using down_choice_range[OF False] by simp
    obtain h1 where sw: "MinHeap_swap h (int i) (int ?s) = Inr h1"
      and h1: "al_holds (mh_data h1) (swap_list xs i ?s)"
      using MinHeap_swap_ok[OF "1.prems"(1,2) sl] by blast
    have sl': "?s < length (swap_list xs i ?s)" using sl by simp
    obtain h' where r: "MinHeap_sift_down_loop h1 (int (length (swap_list xs i ?s))) (int ?s) = Inr h'"
      and h': "al_holds (mh_data h') (sift_down_list (\<le>) (swap_list xs i ?s) ?s)"
      using "1.IH"[OF False h1 sl'] by blast
    have "MinHeap_sift_down_loop h (int (length xs)) (int i) = Inr h'"
      using MinHeap_sift_down_loop_unfold[OF "1.prems"] False sw r by simp
    moreover have "sift_down_list (\<le>) xs i = sift_down_list (\<le>) (swap_list xs i ?s) ?s"
      using False by (subst sift_down_list_unfold) simp
    ultimately show ?thesis using h' by simp
  qed
qed


lemma al_holds_new: "al_holds ArrayList_new []"
  by (simp add: al_holds_def ArrayList_new_def al_inv_init al_contents_init)

lemma al_holds_add:
  assumes "al_holds a xs"
  shows "\<exists>a'. ArrayList_add a (Some v) = Inr a' \<and> al_holds a' (xs @ [v])"
proof -
  have "al_inv a" using assms by (simp add: al_holds_def)
  then obtain a' where "ArrayList_add a (Some v) = Inr a'" "al_inv a'"
    "al_contents a' = al_contents a @ [Some v]"
    using al_add_ok[of a "Some v"] by blast
  then show ?thesis using assms by (simp add: al_holds_def)
qed

lemma al_holds_remove_last:
  assumes "al_holds a xs" "xs \<noteq> []"
  shows "\<exists>a'. ArrayList_remove_last a = Inr (Some (last xs), a') \<and> al_holds a' (butlast xs)"
proof -
  have inv: "al_inv a" and c: "al_contents a = map Some xs"
    using assms(1) by (simp_all add: al_holds_def)
  have "al_size a \<noteq> 0" using al_holds_size[OF assms(1)] assms(2) by simp
  then obtain a' where "ArrayList_remove_last a = Inr (last (al_contents a), a')" "al_inv a'"
    "al_contents a' = butlast (al_contents a)"
    using al_remove_last_ok[OF inv] by blast
  then show ?thesis using c assms(2) by (simp add: al_holds_def last_map map_butlast)
qed

lemma MinHeap_push_ok:
  assumes "al_holds (mh_data h) xs"
  shows "\<exists>h'. MinHeap_push h (Some v) = Inr h' \<and> al_holds (mh_data h') (push_list (\<le>) xs v)"
proof -
  obtain d where add: "ArrayList_add (mh_data h) (Some v) = Inr d" and d: "al_holds d (xs @ [v])"
    using al_holds_add[OF assms] by blast
  have sz: "ArrayList_size d - 1 = int (length xs)"
    using al_holds_size[OF d] by (simp add: ArrayList_size_def)
  have d': "al_holds (mh_data (h\<lparr>mh_data := d\<rparr>)) (xs @ [v])" using d by simp
  obtain h' where "MinHeap_sift_up (h\<lparr>mh_data := d\<rparr>) (int (length xs)) = Inr h'"
    "al_holds (mh_data h') (sift_up_list (\<le>) (xs @ [v]) (length xs))"
    using MinHeap_sift_up_ok[OF d', of "length xs"] by auto
  then show ?thesis using add sz by (simp add: MinHeap_push_def push_list_def)
qed

lemma MinHeap_pop_ok:
  assumes hd: "al_holds (mh_data h) xs" and ne: "xs \<noteq> []"
  shows "\<exists>h'. MinHeap_pop h = Inr (Some (xs ! 0), h') \<and> al_holds (mh_data h') (pop_list (\<le>) xs)"
proof -
  have sz: "ArrayList_size (mh_data h) \<noteq> 0"
    using al_holds_size[OF hd] ne by (simp add: ArrayList_size_def)
  have g0: "ArrayList_get (mh_data h) 0 = Inr (Some (xs ! 0))"
    using al_holds_get[OF hd, of 0] ne by simp
  obtain d where rl: "ArrayList_remove_last (mh_data h) = Inr (Some (last xs), d)"
    and d: "al_holds d (butlast xs)"
    using al_holds_remove_last[OF hd ne] by blast
  have dsz: "ArrayList_size d = int (length xs) - 1"
    using al_holds_size[OF d] ne by (simp add: ArrayList_size_def of_nat_diff Suc_leI)
  show ?thesis
  proof (cases "length xs \<le> 1")
    case True
    then have "\<not> ArrayList_size d > 0" using dsz by simp
    then have "MinHeap_pop h = Inr (Some (xs ! 0), h\<lparr>mh_data := d\<rparr>)"
      using sz g0 rl by (simp add: MinHeap_pop_def)
    moreover have "pop_list (\<le>) xs = butlast xs"
    proof -
      obtain x where "xs = [x]" using True ne by (cases xs) auto
      then show ?thesis by (simp add: pop_list_def)
    qed
    ultimately show ?thesis using d by simp
  next
    case False
    then have pos: "ArrayList_size d > 0" using dsz by simp
    have bl: "0 < length (butlast xs)" using False by simp
    obtain d' where st: "ArrayList_set d 0 (Some (last xs)) = Inr d'"
      and d': "al_holds d' ((butlast xs)[0 := last xs])"
      using al_holds_set[OF d bl, of "last xs"] by auto
    let ?ys = "(butlast xs)[0 := last xs]"
    have d'': "al_holds (mh_data (h\<lparr>mh_data := d'\<rparr>)) ?ys" using d' by simp
    have yl: "0 < length ?ys" using bl by simp
    obtain h' where sd: "MinHeap_sift_down_loop (h\<lparr>mh_data := d'\<rparr>) (int (length ?ys)) (int 0) = Inr h'"
      and h': "al_holds (mh_data h') (sift_down_list (\<le>) ?ys 0)"
      using MinHeap_sift_down_loop_ok[OF d'' yl] by blast
    have "MinHeap_sift_down (h\<lparr>mh_data := d'\<rparr>) 0 = Inr h'"
      using sd al_holds_size[OF d'] by (simp add: MinHeap_sift_down_def ArrayList_size_def)
    then have "MinHeap_pop h = Inr (Some (xs ! 0), h')"
      using sz g0 rl pos st by (simp add: MinHeap_pop_def)
    moreover have "pop_list (\<le>) xs = sift_down_list (\<le>) ?ys 0"
      using False by (simp add: pop_list_def)
    ultimately show ?thesis using h' by simp
  qed
qed

lemma MinHeap_pop_empty:
  "al_holds (mh_data h) [] \<Longrightarrow> MinHeap_pop h = Inr (None, h)"
  using al_holds_size[of "mh_data h" "[]"] by (simp add: MinHeap_pop_def ArrayList_size_def)

lemma le_total_preorder: "total_preorder ((\<le>) :: 'a::linorder \<Rightarrow> 'a \<Rightarrow> bool)"
  unfolding total_preorder_def by (auto intro: order_trans linear)

lemma ge_total_preorder: "total_preorder ((\<ge>) :: 'a::linorder \<Rightarrow> 'a \<Rightarrow> bool)"
  unfolding total_preorder_def by (auto intro: order_trans linear)

lemma MinHeap_run_ok:
  "al_holds (mh_data h) xs \<Longrightarrow> heap_ok (\<le>) xs \<Longrightarrow>
   \<exists>outs h' ys. MinHeap_run h ops = Inr (outs, h') \<and> al_holds (mh_data h') ys \<and>
     heap_ok (\<le>) ys \<and> mset ys + mset (popped outs) = mset xs + mset (pushed ops)"
proof (induction ops arbitrary: h xs)
  case Nil
  then show ?case by auto
next
  case (Cons op ops)
  show ?case
  proof (cases op)
    case (Push v)
    obtain h1 where p: "MinHeap_push h (Some v) = Inr h1"
      and h1: "al_holds (mh_data h1) (push_list (\<le>) xs v)"
      using MinHeap_push_ok[OF Cons.prems(1)] by blast
    have ok1: "heap_ok (\<le>) (push_list (\<le>) xs v)"
      using push_list_heap[OF le_total_preorder Cons.prems(2)] .
    obtain outs h' ys where r: "MinHeap_run h1 ops = Inr (outs, h')"
      and r': "al_holds (mh_data h') ys" "heap_ok (\<le>) ys"
        "mset ys + mset (popped outs) = mset (push_list (\<le>) xs v) + mset (pushed ops)"
      using Cons.IH[OF h1 ok1] by blast
    have "MinHeap_run h (op # ops) = Inr (outs, h')" using Push p r by simp
    moreover have "mset ys + mset (popped outs) = mset xs + mset (pushed (op # ops))"
      using r'(3) Push by (simp add: push_list_mset)
    ultimately show ?thesis using r'(1,2) by blast
  next
    case Pop
    show ?thesis
    proof (cases "xs = []")
      case True
      have p: "MinHeap_pop h = Inr (None, h)"
        using MinHeap_pop_empty Cons.prems(1) True by blast
      obtain outs h' ys where r: "MinHeap_run h ops = Inr (outs, h')"
        and r': "al_holds (mh_data h') ys" "heap_ok (\<le>) ys"
          "mset ys + mset (popped outs) = mset xs + mset (pushed ops)"
        using Cons.IH[OF Cons.prems] by blast
      have "MinHeap_run h (op # ops) = Inr (None # outs, h')" using Pop p r by simp
      moreover have "mset ys + mset (popped (None # outs)) = mset xs + mset (pushed (op # ops))"
        using r'(3) Pop by simp
      ultimately show ?thesis using r'(1,2) by blast
    next
      case False
      obtain h1 where p: "MinHeap_pop h = Inr (Some (xs ! 0), h1)"
        and h1: "al_holds (mh_data h1) (pop_list (\<le>) xs)"
        using MinHeap_pop_ok[OF Cons.prems(1) False] by blast
      have ok1: "heap_ok (\<le>) (pop_list (\<le>) xs)"
        using pop_list_heap[OF le_total_preorder Cons.prems(2)] .
      obtain outs h' ys where r: "MinHeap_run h1 ops = Inr (outs, h')"
        and r': "al_holds (mh_data h') ys" "heap_ok (\<le>) ys"
          "mset ys + mset (popped outs) = mset (pop_list (\<le>) xs) + mset (pushed ops)"
        using Cons.IH[OF h1 ok1] by blast
      have "MinHeap_run h (op # ops) = Inr (Some (xs ! 0) # outs, h')" using Pop p r by simp
      moreover have "mset ys + mset (popped (Some (xs ! 0) # outs)) = mset xs + mset (pushed (op # ops))"
        using r'(3) Pop pop_list_mset[OF le_total_preorder False] by (simp add: add.commute add.assoc)
      ultimately show ?thesis using r'(1,2) by blast
    qed
  qed
qed

lemma MaxHeap_swap_ok:
  assumes "al_holds (xh_data h) xs" "i < length xs" "j < length xs"
  shows "\<exists>h'. MaxHeap_swap h (int i) (int j) = Inr h' \<and> al_holds (xh_data h') (swap_list xs i j)"
proof -
  have gi: "ArrayList_get (xh_data h) (int i) = Inr (Some (xs ! i))"
    and gj: "ArrayList_get (xh_data h) (int j) = Inr (Some (xs ! j))"
    using assms by (simp_all add: al_holds_get)
  obtain d1 where s1: "ArrayList_set (xh_data h) (int i) (Some (xs ! j)) = Inr d1"
    and h1: "al_holds d1 (xs[i := xs ! j])"
    using al_holds_set[OF assms(1,2)] by blast
  have "j < length (xs[i := xs ! j])" using assms(3) by simp
  then obtain d2 where s2: "ArrayList_set d1 (int j) (Some (xs ! i)) = Inr d2"
    and h2: "al_holds d2 (xs[i := xs ! j, j := xs ! i])"
    using al_holds_set[OF h1] by blast
  show ?thesis using gi gj s1 s2 h2 by (simp add: MaxHeap_swap_def swap_list_def)
qed

lemma MaxHeap_sift_up_ok:
  "al_holds (xh_data h) xs \<Longrightarrow> i < length xs \<Longrightarrow>
   \<exists>h'. MaxHeap_sift_up h (int i) = Inr h' \<and> al_holds (xh_data h') (sift_up_list (\<ge>) xs i)"
proof (induction i arbitrary: h xs rule: less_induct)
  case (less i)
  show ?case
  proof (cases "0 < i")
    case False
    then show ?thesis using less.prems
      by (subst MaxHeap_sift_up.simps, subst sift_up_list.simps) simp
  next
    case True
    let ?p = "(i - 1) div 2"
    have pi: "?p < i" using True by (rule parent_less)
    have pl: "?p < length xs" using pi less.prems(2) by simp
    have ip: "(int i - 1) div 2 = int ?p" using True by (rule int_parent)
    have gp: "ArrayList_get (xh_data h) (int ?p) = Inr (Some (xs ! ?p))"
      using less.prems(1) pl by (rule al_holds_get)
    have gi: "ArrayList_get (xh_data h) (int i) = Inr (Some (xs ! i))"
      using less.prems by (rule al_holds_get)
    show ?thesis
    proof (cases "xs ! ?p \<ge> xs ! i")
      case le: True
      have "MaxHeap_sift_up h (int i) = Inr h"
        using True le by (subst MaxHeap_sift_up.simps) (simp del: One_nat_def add: Let_def ip gp gi py_ge_def)
      moreover have "sift_up_list (\<ge>) xs i = xs"
        using True le by (subst sift_up_list.simps) (simp del: One_nat_def add: Let_def)
      ultimately show ?thesis using less.prems(1) by simp
    next
      case nle: False
      obtain h1 where sw: "MaxHeap_swap h (int ?p) (int i) = Inr h1"
        and h1: "al_holds (xh_data h1) (swap_list xs ?p i)"
        using MaxHeap_swap_ok[OF less.prems(1) pl less.prems(2)] by blast
      have "?p < length (swap_list xs ?p i)" using pl by simp
      then obtain h' where r: "MaxHeap_sift_up h1 (int ?p) = Inr h'"
        and h': "al_holds (xh_data h') (sift_up_list (\<ge>) (swap_list xs ?p i) ?p)"
        using less.IH[OF pi h1] by blast
      have "MaxHeap_sift_up h (int i) = Inr h'"
        using True nle by (subst MaxHeap_sift_up.simps) (simp del: One_nat_def add: Let_def ip gp gi py_ge_def sw r)
      moreover have "sift_up_list (\<ge>) xs i = sift_up_list (\<ge>) (swap_list xs ?p i) ?p"
        using True nle by (subst sift_up_list.simps) (simp del: One_nat_def add: Let_def)
      ultimately show ?thesis using h' by simp
    qed
  qed
qed


lemma MaxHeap_sift_down_loop_unfold:
  assumes hd: "al_holds (xh_data h) xs" and il: "i < length xs"
  shows "MaxHeap_sift_down_loop h (int (length xs)) (int i) =
     (if down_choice (\<ge>) xs i = i then Inr h
      else (case MaxHeap_swap h (int i) (int (down_choice (\<ge>) xs i)) of
              Inl e \<Rightarrow> Inl e
            | Inr h' \<Rightarrow> MaxHeap_sift_down_loop h' (int (length xs)) (int (down_choice (\<ge>) xs i))))"
proof -
  define n where "n = length xs"
  define l where "l = i * 2 + 1"
  define r where "r = i * 2 + 2"
  define b1 where "b1 \<longleftrightarrow> l < n \<and> xs ! l > xs ! i"
  define s1 where "s1 = (if b1 then l else i)"
  define b2 where "b2 \<longleftrightarrow> r < n \<and> xs ! r > xs ! s1"
  define s2 where "s2 = (if b2 then r else s1)"
  have L: "int i * 2 + 1 = int l" and R: "int i * 2 + 2 = int r"
    by (simp_all add: l_def r_def)
  have G: "\<And>k. k < n \<Longrightarrow> ArrayList_get (xh_data h) (int k) = Inr (Some (xs ! k))"
    using al_holds_get[OF hd] by (simp add: n_def)
  have in': "i < n" using il by (simp add: n_def)
  have c1: "(if int l < int n then
                 (case ArrayList_get (xh_data h) (int l) of
                    Inl e \<Rightarrow> Inl e
                  | Inr lv \<Rightarrow>
                      (case ArrayList_get (xh_data h) (int i) of
                         Inl e \<Rightarrow> Inl e
                       | Inr s \<Rightarrow> py_gt lv s))
               else Inr False) = Inr b1"
    by (cases "l < n") (simp_all add: G in' py_gt_def b1_def)
  have m1: "(if b1 then int l else int i) = int s1"
    by (simp add: s1_def)
  have s1n: "s1 < n" using in' by (simp add: s1_def b1_def)
  have c2: "(if int r < int n then
                 (case ArrayList_get (xh_data h) (int r) of
                    Inl e \<Rightarrow> Inl e
                  | Inr rv \<Rightarrow>
                      (case ArrayList_get (xh_data h) (int s1) of
                         Inl e \<Rightarrow> Inl e
                       | Inr s \<Rightarrow> py_gt rv s))
               else Inr False) = Inr b2"
    by (cases "r < n") (simp_all add: G s1n py_gt_def b2_def)
  have m2: "(if b2 then int r else int s1) = int s2"
    by (simp add: s2_def)
  have dc: "down_choice (\<ge>) xs i = s2"
    unfolding down_choice_def Let_def s2_def b2_def s1_def b1_def l_def r_def n_def not_le ..
  have "MaxHeap_sift_down_loop h (int n) (int i) =
     (if int s2 = int i then Inr h
      else (case MaxHeap_swap h (int i) (int s2) of
              Inl e \<Rightarrow> Inl e
            | Inr h' \<Rightarrow> MaxHeap_sift_down_loop h' (int n) (int s2)))"
    by (subst MaxHeap_sift_down_loop.simps)
       (simp only: Let_def L R c1 sum.case m1 c2 m2)
  then show ?thesis unfolding dc n_def by simp
qed

lemma MaxHeap_sift_down_loop_ok:
  "al_holds (xh_data h) xs \<Longrightarrow> i < length xs \<Longrightarrow>
   \<exists>h'. MaxHeap_sift_down_loop h (int (length xs)) (int i) = Inr h' \<and>
        al_holds (xh_data h') (sift_down_list (\<ge>) xs i)"
proof (induction xs i arbitrary: h rule: sift_down_list_induct[where le = "(\<ge>)"])
  case (1 xs i)
  show ?case
  proof (cases "down_choice (\<ge>) xs i = i")
    case True
    have "MaxHeap_sift_down_loop h (int (length xs)) (int i) = Inr h"
      using MaxHeap_sift_down_loop_unfold[OF "1.prems"] True by simp
    moreover have "sift_down_list (\<ge>) xs i = xs"
      using True by (subst sift_down_list_unfold) simp
    ultimately show ?thesis using "1.prems"(1) by simp
  next
    case False
    let ?s = "down_choice (\<ge>) xs i"
    have sl: "?s < length xs" using down_choice_range[OF False] by simp
    obtain h1 where sw: "MaxHeap_swap h (int i) (int ?s) = Inr h1"
      and h1: "al_holds (xh_data h1) (swap_list xs i ?s)"
      using MaxHeap_swap_ok[OF "1.prems"(1,2) sl] by blast
    have sl': "?s < length (swap_list xs i ?s)" using sl by simp
    obtain h' where r: "MaxHeap_sift_down_loop h1 (int (length (swap_list xs i ?s))) (int ?s) = Inr h'"
      and h': "al_holds (xh_data h') (sift_down_list (\<ge>) (swap_list xs i ?s) ?s)"
      using "1.IH"[OF False h1 sl'] by blast
    have "MaxHeap_sift_down_loop h (int (length xs)) (int i) = Inr h'"
      using MaxHeap_sift_down_loop_unfold[OF "1.prems"] False sw r by simp
    moreover have "sift_down_list (\<ge>) xs i = sift_down_list (\<ge>) (swap_list xs i ?s) ?s"
      using False by (subst sift_down_list_unfold) simp
    ultimately show ?thesis using h' by simp
  qed
qed


lemma MaxHeap_push_ok:
  assumes "al_holds (xh_data h) xs"
  shows "\<exists>h'. MaxHeap_push h (Some v) = Inr h' \<and> al_holds (xh_data h') (push_list (\<ge>) xs v)"
proof -
  obtain d where add: "ArrayList_add (xh_data h) (Some v) = Inr d" and d: "al_holds d (xs @ [v])"
    using al_holds_add[OF assms] by blast
  have sz: "ArrayList_size d - 1 = int (length xs)"
    using al_holds_size[OF d] by (simp add: ArrayList_size_def)
  have d': "al_holds (xh_data (h\<lparr>xh_data := d\<rparr>)) (xs @ [v])" using d by simp
  obtain h' where "MaxHeap_sift_up (h\<lparr>xh_data := d\<rparr>) (int (length xs)) = Inr h'"
    "al_holds (xh_data h') (sift_up_list (\<ge>) (xs @ [v]) (length xs))"
    using MaxHeap_sift_up_ok[OF d', of "length xs"] by auto
  then show ?thesis using add sz by (simp add: MaxHeap_push_def push_list_def)
qed

lemma MaxHeap_pop_ok:
  assumes hd: "al_holds (xh_data h) xs" and ne: "xs \<noteq> []"
  shows "\<exists>h'. MaxHeap_pop h = Inr (Some (xs ! 0), h') \<and> al_holds (xh_data h') (pop_list (\<ge>) xs)"
proof -
  have sz: "ArrayList_size (xh_data h) \<noteq> 0"
    using al_holds_size[OF hd] ne by (simp add: ArrayList_size_def)
  have g0: "ArrayList_get (xh_data h) 0 = Inr (Some (xs ! 0))"
    using al_holds_get[OF hd, of 0] ne by simp
  obtain d where rl: "ArrayList_remove_last (xh_data h) = Inr (Some (last xs), d)"
    and d: "al_holds d (butlast xs)"
    using al_holds_remove_last[OF hd ne] by blast
  have dsz: "ArrayList_size d = int (length xs) - 1"
    using al_holds_size[OF d] ne by (simp add: ArrayList_size_def of_nat_diff Suc_leI)
  show ?thesis
  proof (cases "length xs \<le> 1")
    case True
    then have "\<not> ArrayList_size d > 0" using dsz by simp
    then have "MaxHeap_pop h = Inr (Some (xs ! 0), h\<lparr>xh_data := d\<rparr>)"
      using sz g0 rl by (simp add: MaxHeap_pop_def)
    moreover have "pop_list (\<ge>) xs = butlast xs"
    proof -
      obtain x where "xs = [x]" using True ne by (cases xs) auto
      then show ?thesis by (simp add: pop_list_def)
    qed
    ultimately show ?thesis using d by simp
  next
    case False
    then have pos: "ArrayList_size d > 0" using dsz by simp
    have bl: "0 < length (butlast xs)" using False by simp
    obtain d' where st: "ArrayList_set d 0 (Some (last xs)) = Inr d'"
      and d': "al_holds d' ((butlast xs)[0 := last xs])"
      using al_holds_set[OF d bl, of "last xs"] by auto
    let ?ys = "(butlast xs)[0 := last xs]"
    have d'': "al_holds (xh_data (h\<lparr>xh_data := d'\<rparr>)) ?ys" using d' by simp
    have yl: "0 < length ?ys" using bl by simp
    obtain h' where sd: "MaxHeap_sift_down_loop (h\<lparr>xh_data := d'\<rparr>) (int (length ?ys)) (int 0) = Inr h'"
      and h': "al_holds (xh_data h') (sift_down_list (\<ge>) ?ys 0)"
      using MaxHeap_sift_down_loop_ok[OF d'' yl] by blast
    have "MaxHeap_sift_down (h\<lparr>xh_data := d'\<rparr>) 0 = Inr h'"
      using sd al_holds_size[OF d'] by (simp add: MaxHeap_sift_down_def ArrayList_size_def)
    then have "MaxHeap_pop h = Inr (Some (xs ! 0), h')"
      using sz g0 rl pos st by (simp add: MaxHeap_pop_def)
    moreover have "pop_list (\<ge>) xs = sift_down_list (\<ge>) ?ys 0"
      using False by (simp add: pop_list_def)
    ultimately show ?thesis using h' by simp
  qed
qed

lemma MaxHeap_pop_empty:
  "al_holds (xh_data h) [] \<Longrightarrow> MaxHeap_pop h = Inr (None, h)"
  using al_holds_size[of "xh_data h" "[]"] by (simp add: MaxHeap_pop_def ArrayList_size_def)

lemma MaxHeap_run_ok:
  "al_holds (xh_data h) xs \<Longrightarrow> heap_ok (\<ge>) xs \<Longrightarrow>
   \<exists>outs h' ys. MaxHeap_run h ops = Inr (outs, h') \<and> al_holds (xh_data h') ys \<and>
     heap_ok (\<ge>) ys \<and> mset ys + mset (popped outs) = mset xs + mset (pushed ops)"
proof (induction ops arbitrary: h xs)
  case Nil
  then show ?case by auto
next
  case (Cons op ops)
  show ?case
  proof (cases op)
    case (Push v)
    obtain h1 where p: "MaxHeap_push h (Some v) = Inr h1"
      and h1: "al_holds (xh_data h1) (push_list (\<ge>) xs v)"
      using MaxHeap_push_ok[OF Cons.prems(1)] by blast
    have ok1: "heap_ok (\<ge>) (push_list (\<ge>) xs v)"
      using push_list_heap[OF ge_total_preorder Cons.prems(2)] .
    obtain outs h' ys where r: "MaxHeap_run h1 ops = Inr (outs, h')"
      and r': "al_holds (xh_data h') ys" "heap_ok (\<ge>) ys"
        "mset ys + mset (popped outs) = mset (push_list (\<ge>) xs v) + mset (pushed ops)"
      using Cons.IH[OF h1 ok1] by blast
    have "MaxHeap_run h (op # ops) = Inr (outs, h')" using Push p r by simp
    moreover have "mset ys + mset (popped outs) = mset xs + mset (pushed (op # ops))"
      using r'(3) Push by (simp add: push_list_mset)
    ultimately show ?thesis using r'(1,2) by blast
  next
    case Pop
    show ?thesis
    proof (cases "xs = []")
      case True
      have p: "MaxHeap_pop h = Inr (None, h)"
        using MaxHeap_pop_empty Cons.prems(1) True by blast
      obtain outs h' ys where r: "MaxHeap_run h ops = Inr (outs, h')"
        and r': "al_holds (xh_data h') ys" "heap_ok (\<ge>) ys"
          "mset ys + mset (popped outs) = mset xs + mset (pushed ops)"
        using Cons.IH[OF Cons.prems] by blast
      have "MaxHeap_run h (op # ops) = Inr (None # outs, h')" using Pop p r by simp
      moreover have "mset ys + mset (popped (None # outs)) = mset xs + mset (pushed (op # ops))"
        using r'(3) Pop by simp
      ultimately show ?thesis using r'(1,2) by blast
    next
      case False
      obtain h1 where p: "MaxHeap_pop h = Inr (Some (xs ! 0), h1)"
        and h1: "al_holds (xh_data h1) (pop_list (\<ge>) xs)"
        using MaxHeap_pop_ok[OF Cons.prems(1) False] by blast
      have ok1: "heap_ok (\<ge>) (pop_list (\<ge>) xs)"
        using pop_list_heap[OF ge_total_preorder Cons.prems(2)] .
      obtain outs h' ys where r: "MaxHeap_run h1 ops = Inr (outs, h')"
        and r': "al_holds (xh_data h') ys" "heap_ok (\<ge>) ys"
          "mset ys + mset (popped outs) = mset (pop_list (\<ge>) xs) + mset (pushed ops)"
        using Cons.IH[OF h1 ok1] by blast
      have "MaxHeap_run h (op # ops) = Inr (Some (xs ! 0) # outs, h')" using Pop p r by simp
      moreover have "mset ys + mset (popped (Some (xs ! 0) # outs)) = mset xs + mset (pushed (op # ops))"
        using r'(3) Pop pop_list_mset[OF ge_total_preorder False] by (simp add: add.commute add.assoc)
      ultimately show ?thesis using r'(1,2) by blast
    qed
  qed
qed



section \<open>Heap claims\<close>

lemma MinHeap_holds_init: "al_holds (mh_data MinHeap_init) []"
  by (simp add: MinHeap_init_def al_holds_new)

lemma MaxHeap_holds_init: "al_holds (xh_data MaxHeap_init) []"
  by (simp add: MaxHeap_init_def al_holds_new)

lemma heap_ok_Nil: "heap_ok le []"
  by (simp add: heap_ok_def)

lemma heap_root_Min:
  fixes es :: "'a::linorder list"
  assumes "heap_ok (\<le>) es" "es \<noteq> []"
  shows "es ! 0 = Min (set es)"
proof (rule Min_eqI[symmetric])
  show "finite (set es)" by simp
  show "\<And>y. y \<in> set es \<Longrightarrow> es ! 0 \<le> y"
    using heap_ok_root_set[OF le_total_preorder assms(1)] by blast
  show "es ! 0 \<in> set es" using assms(2) by simp
qed

lemma heap_root_Max:
  fixes es :: "'a::linorder list"
  assumes "heap_ok (\<ge>) es" "es \<noteq> []"
  shows "es ! 0 = Max (set es)"
proof (rule Max_eqI[symmetric])
  show "finite (set es)" by simp
  show "\<And>y. y \<in> set es \<Longrightarrow> y \<le> es ! 0"
    using heap_ok_root_set[OF ge_total_preorder assms(1)] by blast
  show "es ! 0 \<in> set es" using assms(2) by simp
qed

lemma MinHeap_peek_holds:
  assumes "al_holds (mh_data h) es"
  shows "MinHeap_peek h = Inr (if es = [] then None else Some (es ! 0))"
  using al_holds_size[OF assms] al_holds_get[OF assms, of 0]
  by (simp add: MinHeap_peek_def ArrayList_size_def)

lemma MaxHeap_peek_holds:
  assumes "al_holds (xh_data h) es"
  shows "MaxHeap_peek h = Inr (if es = [] then None else Some (es ! 0))"
  using al_holds_size[OF assms] al_holds_get[OF assms, of 0]
  by (simp add: MaxHeap_peek_def ArrayList_size_def)

text \<open>Claim C1.  After every interleaved sequence of \<^verbatim>\<open>push\<close> and \<^verbatim>\<open>pop\<close> calls on a
  fresh \<^verbatim>\<open>MinHeap\<close> (resp. \<^verbatim>\<open>MaxHeap\<close>) no call has raised, the heap contains
  exactly the values pushed and not yet popped (as a multiset), and \<^verbatim>\<open>peek()\<close>
  returns the minimum (resp. maximum) of the contained values when there are any, and
  \<^verbatim>\<open>None\<close> when there are none.\<close>

theorem heap_peek_extreme:
  fixes ops :: "'a::linorder heap_op list"
  shows
  "(\<exists>outs h es. MinHeap_run MinHeap_init ops = Inr (outs, h) \<and>
       al_contents (mh_data h) = map Some es \<and> MinHeap_size h = int (length es) \<and>
       mset es + mset (popped outs) = mset (pushed ops) \<and>
       MinHeap_peek h = Inr (if es = [] then None else Some (Min (set es)))) \<and>
   (\<exists>outs h es. MaxHeap_run MaxHeap_init ops = Inr (outs, h) \<and>
       al_contents (xh_data h) = map Some es \<and> MaxHeap_size h = int (length es) \<and>
       mset es + mset (popped outs) = mset (pushed ops) \<and>
       MaxHeap_peek h = Inr (if es = [] then None else Some (Max (set es))))"
proof
  obtain outs h es where r: "MinHeap_run MinHeap_init ops = Inr (outs, h)"
    and hd: "al_holds (mh_data h) es" and ok: "heap_ok (\<le>) es"
    and ms: "mset es + mset (popped outs) = mset [] + mset (pushed ops)"
    using MinHeap_run_ok[OF MinHeap_holds_init heap_ok_Nil, of ops] by blast
  have c: "al_contents (mh_data h) = map Some es" using hd by (simp add: al_holds_def)
  have sz: "MinHeap_size h = int (length es)"
    using al_holds_size[OF hd] by (simp add: MinHeap_size_def ArrayList_size_def)
  have pk: "MinHeap_peek h = Inr (if es = [] then None else Some (Min (set es)))"
    using MinHeap_peek_holds[OF hd] heap_root_Min[OF ok] by simp
  show "\<exists>outs h es. MinHeap_run MinHeap_init ops = Inr (outs, h) \<and>
       al_contents (mh_data h) = map Some es \<and> MinHeap_size h = int (length es) \<and>
       mset es + mset (popped outs) = mset (pushed ops) \<and>
       MinHeap_peek h = Inr (if es = [] then None else Some (Min (set es)))"
    using r c sz ms pk by auto
next
  obtain outs h es where r: "MaxHeap_run MaxHeap_init ops = Inr (outs, h)"
    and hd: "al_holds (xh_data h) es" and ok: "heap_ok (\<ge>) es"
    and ms: "mset es + mset (popped outs) = mset [] + mset (pushed ops)"
    using MaxHeap_run_ok[OF MaxHeap_holds_init heap_ok_Nil, of ops] by blast
  have c: "al_contents (xh_data h) = map Some es" using hd by (simp add: al_holds_def)
  have sz: "MaxHeap_size h = int (length es)"
    using al_holds_size[OF hd] by (simp add: MaxHeap_size_def ArrayList_size_def)
  have pk: "MaxHeap_peek h = Inr (if es = [] then None else Some (Max (set es)))"
    using MaxHeap_peek_holds[OF hd] heap_root_Max[OF ok] by simp
  show "\<exists>outs h es. MaxHeap_run MaxHeap_init ops = Inr (outs, h) \<and>
       al_contents (xh_data h) = map Some es \<and> MaxHeap_size h = int (length es) \<and>
       mset es + mset (popped outs) = mset (pushed ops) \<and>
       MaxHeap_peek h = Inr (if es = [] then None else Some (Max (set es)))"
    using r c sz ms pk by auto
qed

subsection \<open>Popping everything yields the sorted order\<close>

lemma MinHeap_run_append:
  "MinHeap_run h (ops1 @ ops2) =
     (case MinHeap_run h ops1 of
        Inl e \<Rightarrow> Inl e
      | Inr (o1, h1) \<Rightarrow>
          (case MinHeap_run h1 ops2 of
             Inl e \<Rightarrow> Inl e
           | Inr (o2, h2) \<Rightarrow> Inr (o1 @ o2, h2)))"
proof (induction ops1 arbitrary: h)
  case Nil
  show ?case by (simp split: sum.splits prod.splits)
next
  case (Cons op ops1)
  show ?case
    by (cases op) (simp_all add: Cons.IH split: sum.splits prod.splits)
qed

lemma MaxHeap_run_append:
  "MaxHeap_run h (ops1 @ ops2) =
     (case MaxHeap_run h ops1 of
        Inl e \<Rightarrow> Inl e
      | Inr (o1, h1) \<Rightarrow>
          (case MaxHeap_run h1 ops2 of
             Inl e \<Rightarrow> Inl e
           | Inr (o2, h2) \<Rightarrow> Inr (o1 @ o2, h2)))"
proof (induction ops1 arbitrary: h)
  case Nil
  show ?case by (simp split: sum.splits prod.splits)
next
  case (Cons op ops1)
  show ?case
    by (cases op) (simp_all add: Cons.IH split: sum.splits prod.splits)
qed

lemma MinHeap_run_pushes_outs:
  "MinHeap_run h (map Push vs) = Inr (outs, h') \<Longrightarrow> outs = []"
  by (induction vs arbitrary: h) (auto split: sum.splits)

lemma MaxHeap_run_pushes_outs:
  "MaxHeap_run h (map Push vs) = Inr (outs, h') \<Longrightarrow> outs = []"
  by (induction vs arbitrary: h) (auto split: sum.splits)

lemma pushed_map_Push [simp]: "pushed (map Push vs) = vs"
  by (induction vs) simp_all

lemma sort_root_Cons:
  fixes xs :: "'a::linorder list"
  assumes "mset ys + {#x#} = mset xs" "\<And>y. y \<in> set xs \<Longrightarrow> x \<le> y"
  shows "sort xs = x # sort ys"
proof (rule properties_for_sort)
  show "mset (x # sort ys) = mset xs" using assms(1) by simp
  have "set ys \<subseteq> set xs"
    using assms(1) by (metis mset_subset_eqD mset_subset_eq_add_left set_mset_mset subsetI)
  then show "sorted (x # sort ys)" using assms(2) by auto
qed

lemma sort_root_snoc:
  fixes xs :: "'a::linorder list"
  assumes "mset ys + {#x#} = mset xs" "\<And>y. y \<in> set xs \<Longrightarrow> y \<le> x"
  shows "sort xs = sort ys @ [x]"
proof (rule properties_for_sort)
  show "mset (sort ys @ [x]) = mset xs" using assms(1) by simp
  have "set ys \<subseteq> set xs"
    using assms(1) by (metis mset_subset_eqD mset_subset_eq_add_left set_mset_mset subsetI)
  then show "sorted (sort ys @ [x])" using assms(2) by (auto simp: sorted_append)
qed

lemma MinHeap_run_pops:
  "al_holds (mh_data h) xs \<Longrightarrow> heap_ok (\<le>) xs \<Longrightarrow> length xs = n \<Longrightarrow>
   \<exists>h'. MinHeap_run h (replicate n Pop) = Inr (map Some (sort xs), h') \<and>
        al_holds (mh_data h') []"
proof (induction n arbitrary: h xs)
  case 0
  then show ?case by simp
next
  case (Suc n)
  have ne: "xs \<noteq> []" using Suc.prems(3) by auto
  obtain h1 where p: "MinHeap_pop h = Inr (Some (xs ! 0), h1)"
    and h1: "al_holds (mh_data h1) (pop_list (\<le>) xs)"
    using MinHeap_pop_ok[OF Suc.prems(1) ne] by blast
  have ok1: "heap_ok (\<le>) (pop_list (\<le>) xs)"
    using pop_list_heap[OF le_total_preorder Suc.prems(2)] .
  have len: "length (pop_list (\<le>) xs) = n"
    using pop_list_length[OF ne, of "(\<le>)"] Suc.prems(3) by simp
  obtain h' where r: "MinHeap_run h1 (replicate n Pop) = Inr (map Some (sort (pop_list (\<le>) xs)), h')"
    and h': "al_holds (mh_data h') []"
    using Suc.IH[OF h1 ok1 len] by blast
  have "sort xs = xs ! 0 # sort (pop_list (\<le>) xs)"
    using pop_list_mset[OF le_total_preorder ne]
      heap_ok_root_set[OF le_total_preorder Suc.prems(2)]
    by (intro sort_root_Cons) auto
  then show ?case using p r h' by simp
qed

lemma MaxHeap_run_pops:
  "al_holds (xh_data h) xs \<Longrightarrow> heap_ok (\<ge>) xs \<Longrightarrow> length xs = n \<Longrightarrow>
   \<exists>h'. MaxHeap_run h (replicate n Pop) = Inr (map Some (rev (sort xs)), h') \<and>
        al_holds (xh_data h') []"
proof (induction n arbitrary: h xs)
  case 0
  then show ?case by simp
next
  case (Suc n)
  have ne: "xs \<noteq> []" using Suc.prems(3) by auto
  obtain h1 where p: "MaxHeap_pop h = Inr (Some (xs ! 0), h1)"
    and h1: "al_holds (xh_data h1) (pop_list (\<ge>) xs)"
    using MaxHeap_pop_ok[OF Suc.prems(1) ne] by blast
  have ok1: "heap_ok (\<ge>) (pop_list (\<ge>) xs)"
    using pop_list_heap[OF ge_total_preorder Suc.prems(2)] .
  have len: "length (pop_list (\<ge>) xs) = n"
    using pop_list_length[OF ne, of "(\<ge>)"] Suc.prems(3) by simp
  obtain h' where r: "MaxHeap_run h1 (replicate n Pop) = Inr (map Some (rev (sort (pop_list (\<ge>) xs))), h')"
    and h': "al_holds (xh_data h') []"
    using Suc.IH[OF h1 ok1 len] by blast
  have "sort xs = sort (pop_list (\<ge>) xs) @ [xs ! 0]"
    using pop_list_mset[OF ge_total_preorder ne]
      heap_ok_root_set[OF ge_total_preorder Suc.prems(2)]
    by (intro sort_root_snoc) auto
  then show ?case using p r h' by simp
qed

text \<open>Claim C5.  Pushing the \<open>N\<close> values of a list onto a fresh \<^verbatim>\<open>MinHeap\<close> (resp.
  \<^verbatim>\<open>MaxHeap\<close>) and then popping \<open>N\<close> times raises nothing, yields the values in
  ascending (resp. descending) sorted order, and leaves the heap empty.  This holds for
  every list over a linearly ordered type, so in particular for every permutation of
  \<open>N\<close> distinct integers.\<close>

theorem heap_sorted_pops:
  fixes xs :: "'a::linorder list"
  shows
  "(\<exists>h. MinHeap_run MinHeap_init (map Push xs @ replicate (length xs) Pop)
           = Inr (map Some (sort xs), h) \<and> MinHeap_size h = 0) \<and>
   (\<exists>h. MaxHeap_run MaxHeap_init (map Push xs @ replicate (length xs) Pop)
           = Inr (map Some (rev (sort xs)), h) \<and> MaxHeap_size h = 0)"
proof
  obtain outs h1 ys where r1: "MinHeap_run MinHeap_init (map Push xs) = Inr (outs, h1)"
    and hd: "al_holds (mh_data h1) ys" and ok: "heap_ok (\<le>) ys"
    and ms: "mset ys + mset (popped outs) = mset [] + mset (pushed (map Push xs))"
    using MinHeap_run_ok[OF MinHeap_holds_init heap_ok_Nil, of "map Push xs"] by blast
  have o: "outs = []" using MinHeap_run_pushes_outs[OF r1] .
  have m: "mset ys = mset xs" using ms o by simp
  have len: "length ys = length xs" using m by (rule mset_eq_length)
  have st: "sort ys = sort xs" using m by (intro properties_for_sort) simp_all
  obtain h where r2: "MinHeap_run h1 (replicate (length xs) Pop) = Inr (map Some (sort ys), h)"
    and h: "al_holds (mh_data h) []"
    using MinHeap_run_pops[OF hd ok len] by blast
  have "MinHeap_size h = 0"
    using al_holds_size[OF h] by (simp add: MinHeap_size_def ArrayList_size_def)
  then show "\<exists>h. MinHeap_run MinHeap_init (map Push xs @ replicate (length xs) Pop)
           = Inr (map Some (sort xs), h) \<and> MinHeap_size h = 0"
    using r1 r2 o st by (simp add: MinHeap_run_append)
next
  obtain outs h1 ys where r1: "MaxHeap_run MaxHeap_init (map Push xs) = Inr (outs, h1)"
    and hd: "al_holds (xh_data h1) ys" and ok: "heap_ok (\<ge>) ys"
    and ms: "mset ys + mset (popped outs) = mset [] + mset (pushed (map Push xs))"
    using MaxHeap_run_ok[OF MaxHeap_holds_init heap_ok_Nil, of "map Push xs"] by blast
  have o: "outs = []" using MaxHeap_run_pushes_outs[OF r1] .
  have m: "mset ys = mset xs" using ms o by simp
  have len: "length ys = length xs" using m by (rule mset_eq_length)
  have st: "sort ys = sort xs" using m by (intro properties_for_sort) simp_all
  obtain h where r2: "MaxHeap_run h1 (replicate (length xs) Pop) = Inr (map Some (rev (sort ys)), h)"
    and h: "al_holds (xh_data h) []"
    using MaxHeap_run_pops[OF hd ok len] by blast
  have "MaxHeap_size h = 0"
    using al_holds_size[OF h] by (simp add: MaxHeap_size_def ArrayList_size_def)
  then show "\<exists>h. MaxHeap_run MaxHeap_init (map Push xs @ replicate (length xs) Pop)
           = Inr (map Some (rev (sort xs)), h) \<and> MaxHeap_size h = 0"
    using r1 r2 o st by (simp add: MaxHeap_run_append)
qed

section \<open>The concrete scenarios of the specification\<close>

text \<open>Pushing 5, 3, 8, 1 onto a \<^verbatim>\<open>MinHeap\<close> and popping four times yields 1, 3, 5, 8;
  enqueuing \<^verbatim>\<open>"a"\<close>, \<^verbatim>\<open>"b"\<close>, \<^verbatim>\<open>"c"\<close> and dequeuing three times yields them in that
  order; five \<^verbatim>\<open>add\<close> calls on an \<^verbatim>\<open>ArrayList\<close> of capacity 1 leave size 5,
  \<^verbatim>\<open>get(4)\<close> equal to 50 and a grown buffer.\<close>

lemma scenario_min_heap:
  "map_sum id fst (MinHeap_run MinHeap_init [Push (5::int), Push 3, Push 8, Push 1, Pop, Pop, Pop, Pop])
     = Inr [Some 1, Some 3, Some 5, Some 8]"
  by code_simp

lemma scenario_queue:
  "(case Queue_enqueue_all Queue_init [Some ''a'', Some ''b'', Some ''c''] of
      Inl e \<Rightarrow> Inl e
    | Inr q \<Rightarrow> map_sum id fst (Queue_dequeue_n q 3))
     = Inr [Some ''a'', Some ''b'', Some ''c'']"
  by code_simp

lemma scenario_growth:
  "(case ArrayList_add_all (ArrayList_init 1) [Some (10::int), Some 20, Some 30, Some 40, Some 50] of
      Inl e \<Rightarrow> Inl e
    | Inr a \<Rightarrow> Inr (ArrayList_size a, ArrayList_get a 4, 1 < al_capacity a))
     = Inr (5, Inr (Some 50), True)"
  by code_simp

end
